theory Spec2Isabelle
  imports Main "HOL-Library.AList" "HOL-Library.Char_ord" "HOL-Library.List_Lexorder"
begin

unbundle bit_operations_syntax

section \<open>The data of relock.js\<close>

text \<open>
  The program reads two package lock files, builds a dependency tree from each
  (\<^verbatim>\<open>generateDependencyTree\<close>), mixes the two trees (\<^verbatim>\<open>relockTree\<close>), hoists the mixed
  tree into a placement tree (\<^verbatim>\<open>flattenTree\<close>) and renders it as a lock file
  (\<^verbatim>\<open>buildLockFile\<close>).

  Modelling conventions.
  \<^item> A JavaScript object used as a dictionary is an association list in property order, or
    a map where the order is never read; \<^verbatim>\<open>Object.keys\<close> is \<open>map fst\<close>, an assignment
    \<^verbatim>\<open>obj[key] = v\<close> is \<open>AList.update\<close>.
  \<^item> The memo table \<^verbatim>\<open>processed\<close> and the \<^verbatim>\<open>dependencies\<close> of a placement node are objects
    that the program creates with \<^verbatim>\<open>{}\<close> and reads at names taken from the lock files.
    Such a read also finds the members that every object inherits from
    \<^verbatim>\<open>Object.prototype\<close>: it is \<open>get_property\<close>. The objects of the lock files and of the
    dependency trees are modelled by their own properties, \<^verbatim>\<open>obj[key]\<close> there is \<open>map_of\<close>.
  \<^item> Strings are byte strings (the UTF-8 encoding that \<^verbatim>\<open>md5sum.update\<close> hashes).
  \<^item> An exception is a value \<open>Inl e\<close>; a computation that may not return yields an option.
  \<^item> The module-level variables \<^verbatim>\<open>versions\<close> and \<^verbatim>\<open>dependencyTrees\<close> are threaded through
    the functions that write them.
\<close>

text \<open>\<open>ProtoAccessor\<close> is not an exception of the source. It marks the two places where the
  program, through the key \<^verbatim>\<open>__proto__\<close>, takes \<^verbatim>\<open>Object.prototype\<close> for a dependency list or
  replaces the prototype of a \<^verbatim>\<open>dependencies\<close> object, and goes on with objects that the
  datatypes below do not represent.\<close>

datatype error = MissingRequiredModule string | TypeError | SyntaxError | ProtoAccessor

text \<open>The read \<^verbatim>\<open>obj[key]\<close> on an object created with \<^verbatim>\<open>{}\<close>: an own property, else a
  member inherited from \<^verbatim>\<open>Object.prototype\<close>, else \<^verbatim>\<open>undefined\<close>. The inherited members are
  functions, except the accessor \<^verbatim>\<open>__proto__\<close>, which yields \<^verbatim>\<open>Object.prototype\<close> itself. All
  of them are truthy, and none has a property \<^verbatim>\<open>variant\<close> or \<^verbatim>\<open>dependencies\<close>.\<close>

definition object_prototype_functions :: "string list" where
  "object_prototype_functions =
     [''constructor'', ''hasOwnProperty'', ''isPrototypeOf'', ''propertyIsEnumerable'',
      ''toLocaleString'', ''toString'', ''valueOf'', ''__defineGetter__'', ''__defineSetter__'',
      ''__lookupGetter__'', ''__lookupSetter__'']"

datatype 'a property = Own 'a | InheritedFunction | InheritedPrototype | Undefined

definition get_property :: "(string \<rightharpoonup> 'a) \<Rightarrow> string \<Rightarrow> 'a property" where
  "get_property own key =
     (case own key of
        Some v \<Rightarrow> Own v
      | None \<Rightarrow>
          if key \<in> set object_prototype_functions then InheritedFunction
          else if key = ''__proto__'' then InheritedPrototype
          else Undefined)"

text \<open>\<^verbatim>\<open>String.prototype.split(sep)\<close> for a one-character separator, and
  \<^verbatim>\<open>Array.prototype.join('|')\<close>.\<close>

fun split_acc :: "char \<Rightarrow> string \<Rightarrow> string \<Rightarrow> string list" where
  "split_acc c acc [] = [rev acc]"
| "split_acc c acc (x # xs) =
     (if x = c then rev acc # split_acc c [] xs else split_acc c (x # acc) xs)"

definition split :: "char \<Rightarrow> string \<Rightarrow> string list" where
  "split c s = split_acc c [] s"

fun join :: "string list \<Rightarrow> string" where
  "join [] = []"
| "join [x] = x"
| "join (x # y # zs) = x @ CHR ''|'' # join (y # zs)"

text \<open>A node of a dependency tree, with the properties in the order in which
  \<^verbatim>\<open>generateDependencyTree.one\<close> creates them. The root node has no \<^verbatim>\<open>semVer\<close> and no
  \<^verbatim>\<open>tag\<close>; the model stores the empty string there, and nothing reads it.\<close>

datatype dep_node =
  DepNode (dn_name: string) (dn_version: string) (dn_semVer: string) (dn_tag: string)
          (dn_requires: "(string \<times> string) list") (dn_signature: string)
          (dn_dependencies: "dep_node list")

text \<open>An entry of a lock file: its version, its other string properties, the ranges it
  requires and its nested entries. The source replaces an absent \<^verbatim>\<open>requires\<close> or
  \<^verbatim>\<open>dependencies\<close> by \<^verbatim>\<open>{}\<close> before it reads them, so absent and empty coincide.\<close>

datatype lock_entry =
  LockEntry (le_version: string) (le_meta: "(string \<times> string) list")
            (le_requires: "(string \<times> string) list")
            (le_dependencies: "(string \<times> lock_entry) list")

section \<open>Signature engine\<close>

subsection \<open>MD5 (\<^verbatim>\<open>crypto.createHash('md5')\<close>), on 32-bit words as naturals modulo \<open>2 ^ 32\<close>\<close>

definition md5_K :: "nat list" where
  "md5_K = [0xD76AA478, 0xE8C7B756, 0x242070DB, 0xC1BDCEEE, 0xF57C0FAF, 0x4787C62A, 0xA8304613,
            0xFD469501, 0x698098D8, 0x8B44F7AF, 0xFFFF5BB1, 0x895CD7BE, 0x6B901122, 0xFD987193,
            0xA679438E, 0x49B40821, 0xF61E2562, 0xC040B340, 0x265E5A51, 0xE9B6C7AA, 0xD62F105D,
            0x02441453, 0xD8A1E681, 0xE7D3FBC8, 0x21E1CDE6, 0xC33707D6, 0xF4D50D87, 0x455A14ED,
            0xA9E3E905, 0xFCEFA3F8, 0x676F02D9, 0x8D2A4C8A, 0xFFFA3942, 0x8771F681, 0x6D9D6122,
            0xFDE5380C, 0xA4BEEA44, 0x4BDECFA9, 0xF6BB4B60, 0xBEBFBC70, 0x289B7EC6, 0xEAA127FA,
            0xD4EF3085, 0x04881D05, 0xD9D4D039, 0xE6DB99E5, 0x1FA27CF8, 0xC4AC5665, 0xF4292244,
            0x432AFF97, 0xAB9423A7, 0xFC93A039, 0x655B59C3, 0x8F0CCC92, 0xFFEFF47D, 0x85845DD1,
            0x6FA87E4F, 0xFE2CE6E0, 0xA3014314, 0x4E0811A1, 0xF7537E82, 0xBD3AF235, 0x2AD7D2BB,
            0xEB86D391]"

definition md5_S :: "nat list" where
  "md5_S = [7, 12, 17, 22, 7, 12, 17, 22, 7, 12, 17, 22, 7, 12, 17, 22,
            5, 9, 14, 20, 5, 9, 14, 20, 5, 9, 14, 20, 5, 9, 14, 20,
            4, 11, 16, 23, 4, 11, 16, 23, 4, 11, 16, 23, 4, 11, 16, 23,
            6, 10, 15, 21, 6, 10, 15, 21, 6, 10, 15, 21, 6, 10, 15, 21]"

definition md5_rounds :: "nat list" where
  "md5_rounds = [0..<64]"

fun le_bytes :: "nat \<Rightarrow> nat \<Rightarrow> nat list" where
  "le_bytes 0 x = []"
| "le_bytes (Suc n) x = (x mod 256) # le_bytes n (x div 256)"

definition md5_pad :: "nat list \<Rightarrow> nat list" where
  "md5_pad msg =
     msg @ [128] @ replicate ((119 - length msg mod 64) mod 64) 0 @ le_bytes 8 (8 * length msg)"

fun md5_words :: "nat list \<Rightarrow> nat list" where
  "md5_words (b0 # b1 # b2 # b3 # bs) =
     (b0 + 256 * (b1 + 256 * (b2 + 256 * b3))) # md5_words bs"
| "md5_words bs = []"

definition add32 :: "nat \<Rightarrow> nat \<Rightarrow> nat" where
  "add32 x y = (x + y) mod 4294967296"

definition not32 :: "nat \<Rightarrow> nat" where
  "not32 x = 4294967295 - x"

definition rotl32 :: "nat \<Rightarrow> nat \<Rightarrow> nat" where
  "rotl32 s x = (x * 2 ^ s) mod 4294967296 + x div 2 ^ (32 - s)"

definition md5_f :: "nat \<Rightarrow> nat \<Rightarrow> nat \<Rightarrow> nat \<Rightarrow> nat" where
  "md5_f i b c d =
     (if i < 16 then (b AND c) OR (not32 b AND d)
      else if i < 32 then (d AND b) OR (not32 d AND c)
      else if i < 48 then b XOR c XOR d
      else c XOR (b OR not32 d))"

definition md5_g :: "nat \<Rightarrow> nat" where
  "md5_g i =
     (if i < 16 then i
      else if i < 32 then (5 * i + 1) mod 16
      else if i < 48 then (3 * i + 5) mod 16
      else (7 * i) mod 16)"

fun md5_step :: "nat list \<Rightarrow> nat \<times> nat \<times> nat \<times> nat \<Rightarrow> nat \<Rightarrow> nat \<times> nat \<times> nat \<times> nat" where
  "md5_step M (a, b, c, d) i =
     (d, add32 b (rotl32 (md5_S ! i)
                    (add32 (add32 (add32 a (md5_f i b c d)) (md5_K ! i)) (M ! md5_g i))), b, c)"

fun md5_block :: "nat \<times> nat \<times> nat \<times> nat \<Rightarrow> nat list \<Rightarrow> nat \<times> nat \<times> nat \<times> nat" where
  "md5_block (a0, b0, c0, d0) M =
     (case foldl (md5_step M) (a0, b0, c0, d0) md5_rounds of
        (a, b, c, d) \<Rightarrow> (add32 a0 a, add32 b0 b, add32 c0 c, add32 d0 d))"

fun md5_blocks :: "nat \<times> nat \<times> nat \<times> nat \<Rightarrow> nat list \<Rightarrow> nat \<times> nat \<times> nat \<times> nat" where
  "md5_blocks st (w0 # w1 # w2 # w3 # w4 # w5 # w6 # w7 # w8 # w9 # w10 # w11 # w12 # w13 # w14 # w15 # ws) =
     md5_blocks (md5_block st [w0, w1, w2, w3, w4, w5, w6, w7, w8, w9, w10, w11, w12, w13, w14, w15]) ws"
| "md5_blocks st ws = st"

definition hex_digit :: "nat \<Rightarrow> char" where
  "hex_digit n = ''0123456789abcdef'' ! n"

definition hex_byte :: "nat \<Rightarrow> string" where
  "hex_byte b = [hex_digit (b div 16), hex_digit (b mod 16)]"

definition md5_hex :: "string \<Rightarrow> string" where
  "md5_hex s =
     (case md5_blocks (0x67452301, 0xEFCDAB89, 0x98BADCFE, 0x10325476)
             (md5_words (md5_pad (map of_char s))) of
        (a, b, c, d) \<Rightarrow> concat (map (\<lambda>w. concat (map hex_byte (le_bytes 4 w))) [a, b, c, d]))"

subsection \<open>\<^verbatim>\<open>JSON.stringify\<close> of a dependency list, and \<^verbatim>\<open>getTreeSignature\<close>\<close>

definition json_escape :: "char \<Rightarrow> string" where
  "json_escape c =
     (if c = CHR 0x22 then [CHR 0x5C, CHR 0x22]
      else if c = CHR 0x5C then [CHR 0x5C, CHR 0x5C]
      else if c = CHR 0x08 then [CHR 0x5C, CHR ''b'']
      else if c = CHR 0x0C then [CHR 0x5C, CHR ''f'']
      else if c = CHR 0x0A then [CHR 0x5C, CHR ''n'']
      else if c = CHR 0x0D then [CHR 0x5C, CHR ''r'']
      else if c = CHR 0x09 then [CHR 0x5C, CHR ''t'']
      else if (of_char c :: nat) < 32
        then [CHR 0x5C, CHR ''u'', CHR ''0'', CHR ''0''] @ hex_byte (of_char c)
      else [c])"

definition json_string :: "string \<Rightarrow> string" where
  "json_string s = CHR 0x22 # concat (map json_escape s) @ [CHR 0x22]"

fun commas :: "string list \<Rightarrow> string" where
  "commas [] = []"
| "commas [x] = x"
| "commas (x # y # zs) = x @ CHR '','' # commas (y # zs)"

definition stringify_requires :: "(string \<times> string) list \<Rightarrow> string" where
  "stringify_requires r =
     ''{'' @ commas (map (\<lambda>(k, v). json_string k @ '':'' @ json_string v) r) @ ''}''"

fun stringify_node :: "dep_node \<Rightarrow> string" where
  "stringify_node (DepNode n v sv t r sg ds) =
     ''{'' @ json_string ''name'' @ '':'' @ json_string n
     @ '','' @ json_string ''version'' @ '':'' @ json_string v
     @ '','' @ json_string ''semVer'' @ '':'' @ json_string sv
     @ '','' @ json_string ''tag'' @ '':'' @ json_string t
     @ '','' @ json_string ''requires'' @ '':'' @ stringify_requires r
     @ '','' @ json_string ''signature'' @ '':'' @ json_string sg
     @ '','' @ json_string ''dependencies'' @ '':'' @ ''['' @ commas (map stringify_node ds) @ '']''
     @ ''}''"

definition stringify :: "dep_node list \<Rightarrow> string" where
  "stringify tree = ''['' @ commas (map stringify_node tree) @ '']''"

definition getTreeSignature :: "dep_node list \<Rightarrow> string" where
  "getTreeSignature tree = md5_hex (stringify tree)"

section \<open>Tree builder: \<^verbatim>\<open>generateDependencyTree\<close>\<close>

fun buildPaths_one :: "lock_entry \<Rightarrow> string list \<Rightarrow> string list" where
  "buildPaths_one (LockEntry v m r deps) path =
     concat (map (\<lambda>(key, depNode).
                    join (path @ [key]) # buildPaths_one depNode (path @ [key])) deps)"

definition buildPaths :: "lock_entry \<Rightarrow> string list" where
  "buildPaths root = [] # buildPaths_one root []"

text \<open>The \<^verbatim>\<open>do ... while (!found && !done)\<close> loop of \<^verbatim>\<open>getLockPath\<close>. A match with the
  empty string leaves \<^verbatim>\<open>found\<close> falsy and the search path unchanged, so the loop runs again
  on the same state: the result is \<open>None\<close>.\<close>

partial_function (option) getLockPath_loop :: "string list \<Rightarrow> string list \<Rightarrow> string \<Rightarrow> string option" where
  "getLockPath_loop lockPaths searchPath name =
     (let check = join (searchPath @ [name]) in
      if check \<in> set lockPaths
        then (if check \<noteq> [] then Some check else getLockPath_loop lockPaths searchPath name)
      else if searchPath = [] then Some []
      else getLockPath_loop lockPaths (butlast searchPath) name)"

definition getLockPath :: "string list \<Rightarrow> string list \<Rightarrow> string \<Rightarrow> string option" where
  "getLockPath lockPaths path name =
     (if path = [] \<and> name = [] then Some [] else getLockPath_loop lockPaths path name)"

text \<open>\<^verbatim>\<open>getNode\<close> of the builder: a part that is not found is logged and skipped, the walk
  goes on from the same node.\<close>

definition gdt_getNode :: "lock_entry \<Rightarrow> string list \<Rightarrow> lock_entry" where
  "gdt_getNode root path =
     foldl (\<lambda>node part. case map_of (le_dependencies node) part of
                           Some d \<Rightarrow> d
                         | None \<Rightarrow> node) root path"

definition gdt_find :: "lock_entry \<Rightarrow> string list \<Rightarrow> string \<Rightarrow> string list \<Rightarrow> lock_entry option" where
  "gdt_find root lockPaths name path =
     (if name = [] \<and> path = [] then Some root
      else map_option (\<lambda>lockPath. gdt_getNode root (split CHR ''|'' lockPath))
             (getLockPath lockPaths path name))"

text \<open>The test \<^verbatim>\<open>if (!match)\<close> is applied to an object, and every object is truthy.\<close>

definition object_truthy :: "lock_entry \<Rightarrow> bool" where
  "object_truthy node = True"

definition delete_dependencies :: "lock_entry \<Rightarrow> lock_entry" where
  "delete_dependencies node = LockEntry (le_version node) (le_meta node) (le_requires node) []"

text \<open>The state of one run of \<^verbatim>\<open>generateDependencyTree\<close>: its local \<^verbatim>\<open>stack\<close> and
  \<^verbatim>\<open>processed\<close>, and the two module-level tables.\<close>

record bstate =
  stack :: "string list"
  processed :: "string \<rightharpoonup> dep_node list"
  versions :: "string \<rightharpoonup> lock_entry"
  dependencyTrees :: "string \<rightharpoonup> dep_node list"

text \<open>\<^verbatim>\<open>generateDependencyTree.one\<close> and the body of its \<^verbatim>\<open>forEach\<close> over the required names.
  The recursion depth is bounded by the fuel; \<open>None\<close> is a run that did not return.

  The test \<^verbatim>\<open>if (processed[lockOnePath])\<close> reads a plain object. An own entry is an array,
  which is truthy also when it is empty. When the lock path is the name of a function
  inherited from \<^verbatim>\<open>Object.prototype\<close> (a top-level dependency named \<^verbatim>\<open>constructor\<close>, say), the
  test succeeds and \<^verbatim>\<open>one\<close> returns the function to the \<^verbatim>\<open>forEach\<close> callback, its only caller
  for a lock path that is not empty; there \<^verbatim>\<open>getTreeSignature\<close> is the next statement that
  can fail, \<^verbatim>\<open>JSON.stringify\<close> of a function is \<^verbatim>\<open>undefined\<close>, and \<^verbatim>\<open>md5sum.update(undefined)\<close>
  raises a TypeError. The model raises it where the function is returned. When the lock
  path is \<^verbatim>\<open>__proto__\<close>, \<^verbatim>\<open>one\<close> returns \<^verbatim>\<open>Object.prototype\<close>, which the callback stores as the
  \<^verbatim>\<open>dependencies\<close> of the node: \<open>ProtoAccessor\<close>.\<close>

fun gdt_one :: "nat \<Rightarrow> lock_entry \<Rightarrow> string list \<Rightarrow> string list \<Rightarrow> bstate
                  \<Rightarrow> (error + dep_node list \<times> bstate) option"
  and gdt_requires :: "nat \<Rightarrow> lock_entry \<Rightarrow> string list \<Rightarrow> string list \<Rightarrow> (string \<times> string) list
                  \<Rightarrow> dep_node list \<Rightarrow> bstate \<Rightarrow> (error + dep_node list \<times> bstate) option"
where
  "gdt_one 0 root lockPaths path st = None"
| "gdt_one (Suc fuel) root lockPaths path st =
     (let onePath = butlast path;
          name = (if path = [] then [] else last path)
      in case getLockPath lockPaths onePath name of
           None \<Rightarrow> None
         | Some lockOnePath \<Rightarrow>
             if lockOnePath \<in> set (stack st) then Some (Inr ([], st))
             else
               (let st1 = st\<lparr>stack := stack st @ [lockOnePath]\<rparr> in
                case gdt_find root lockPaths name onePath of
                  None \<Rightarrow> None
                | Some lockNode \<Rightarrow>
                    (case get_property (processed st1) lockOnePath of
                       Own deps \<Rightarrow> Some (Inr (deps, st1\<lparr>stack := butlast (stack st1)\<rparr>))
                     | InheritedFunction \<Rightarrow> Some (Inl TypeError)
                     | InheritedPrototype \<Rightarrow> Some (Inl ProtoAccessor)
                     | Undefined \<Rightarrow>
                         (case gdt_requires fuel root lockPaths path (le_requires lockNode) [] st1 of
                            None \<Rightarrow> None
                          | Some (Inl e) \<Rightarrow> Some (Inl e)
                          | Some (Inr (deps, st2)) \<Rightarrow>
                              Some (Inr (deps, st2\<lparr>stack := butlast (stack st2),
                                                   processed := (processed st2)(lockOnePath \<mapsto> deps)\<rparr>))))))"
| "gdt_requires fuel root lockPaths path [] deps st = Some (Inr (deps, st))"
| "gdt_requires fuel root lockPaths path ((name, semVer) # rest) deps st =
     (case getLockPath lockPaths path name of
        None \<Rightarrow> None
      | Some realPath \<Rightarrow>
          (case gdt_find root lockPaths name path of
             None \<Rightarrow> None
           | Some match \<Rightarrow>
               if \<not> object_truthy match then Some (Inl (MissingRequiredModule name))
               else
                 (let st1 = st\<lparr>versions := (versions st)
                                 (name @ ''@'' @ le_version match \<mapsto> delete_dependencies match)\<rparr>;
                      depPath = split CHR ''|'' realPath
                  in case gdt_one fuel root lockPaths depPath st1 of
                       None \<Rightarrow> None
                     | Some (Inl e) \<Rightarrow> Some (Inl e)
                     | Some (Inr (nodeDependencies, st2)) \<Rightarrow>
                         (let sig = getTreeSignature nodeDependencies;
                              node = DepNode name (le_version match) semVer
                                       (name @ ''@'' @ le_version match)
                                       (le_requires match) sig nodeDependencies;
                              st3 = st2\<lparr>dependencyTrees :=
                                          (dependencyTrees st2)(sig \<mapsto> nodeDependencies)\<rparr>
                          in gdt_requires fuel root lockPaths path rest (deps @ [node]) st3))))"

text \<open>The module-level tables, as they stand between the calls.\<close>

record globals =
  g_versions :: "string \<rightharpoonup> lock_entry"
  g_dependencyTrees :: "string \<rightharpoonup> dep_node list"

definition generateDependencyTree :: "nat \<Rightarrow> globals \<Rightarrow> lock_entry \<Rightarrow> (error + dep_node \<times> globals) option" where
  "generateDependencyTree fuel g root =
     (let lockPaths = buildPaths root;
          st0 = \<lparr>stack = [], processed = Map.empty, versions = g_versions g,
                 dependencyTrees = g_dependencyTrees g\<rparr>
      in case gdt_one fuel root lockPaths [] st0 of
           None \<Rightarrow> None
         | Some (Inl e) \<Rightarrow> Some (Inl e)
         | Some (Inr (result, st)) \<Rightarrow>
             (let sig = getTreeSignature result;
                  node = DepNode [] (le_version root) [] [] (le_requires root) sig result
              in Some (Inr (node, \<lparr>g_versions = versions st,
                                   g_dependencyTrees = (dependencyTrees st)(sig \<mapsto> result)\<rparr>))))"

section \<open>Relock differ: \<^verbatim>\<open>relockTree\<close>\<close>

text \<open>\<^verbatim>\<open>RegExp\<close> search is a parameter \<open>re_search pattern name\<close>.\<close>

definition isProjectModule :: "(string \<Rightarrow> string \<Rightarrow> bool) \<Rightarrow> string list \<Rightarrow> string \<Rightarrow> bool" where
  "isProjectModule re_search projectFiles moduleName =
     (moduleName = [] \<or> list_ex (\<lambda>pattern. re_search pattern moduleName) projectFiles)"

definition relock_find :: "dep_node list \<Rightarrow> string \<Rightarrow> dep_node option" where
  "relock_find deps n = List.find (\<lambda>dependency. dn_name dependency = n) deps"

fun relock_getNode :: "dep_node \<Rightarrow> string list \<Rightarrow> dep_node option" where
  "relock_getNode node [] = Some node"
| "relock_getNode node (part # searchPath) =
     (case relock_find (dn_dependencies node) part of
        None \<Rightarrow> None
      | Some child \<Rightarrow> relock_getNode child searchPath)"

text \<open>\<^verbatim>\<open>String.prototype.replace\<close> with a string pattern removes the first occurrence.\<close>

definition cleanSemVer :: "string \<Rightarrow> string" where
  "cleanSemVer s = remove1 CHR ''^'' (remove1 CHR ''~'' s)"

definition component :: "string list \<Rightarrow> nat \<Rightarrow> string option" where
  "component parts i = (if i < length parts then Some (parts ! i) else None)"

definition notPatch :: "string \<Rightarrow> string \<Rightarrow> bool" where
  "notPatch curSemVer prevSemVer =
     (let curVer = split CHR ''.'' (cleanSemVer curSemVer);
          prevVer = split CHR ''.'' (cleanSemVer prevSemVer)
      in component curVer 0 \<noteq> component prevVer 0 \<or> component curVer 1 \<noteq> component prevVer 1)"

fun sequence :: "(error + 'a) list \<Rightarrow> error + 'a list" where
  "sequence [] = Inr []"
| "sequence (Inl e # rs) = Inl e"
| "sequence (Inr x # rs) = (case sequence rs of Inl e \<Rightarrow> Inl e | Inr xs \<Rightarrow> Inr (x # xs))"

text \<open>\<^verbatim>\<open>relockNode.dependencies.push(dependencyNode)\<close>. The source also pushes
  \<^verbatim>\<open>undefined\<close> when \<^verbatim>\<open>find\<close> found nothing; every later reader of such an entry (the
  callback of \<^verbatim>\<open>find\<close>, \<^verbatim>\<open>buildIndexes\<close>) raises a TypeError on it, and the model raises it
  at the push.\<close>

definition push :: "dep_node option \<Rightarrow> error + dep_node" where
  "push dependencyNode = (case dependencyNode of None \<Rightarrow> Inl TypeError | Some d \<Rightarrow> Inr d)"

fun height :: "dep_node \<Rightarrow> nat" where
  "height (DepNode n v sv t r sg ds) = (if ds = [] then 0 else Suc (Max (set (map height ds))))"

text \<open>\<^verbatim>\<open>relockTree.one\<close>. The node it adds to the relocked tree is returned, and the caller
  appends it: \<^verbatim>\<open>addNode\<close> finds the parent by the names on the path, which are the distinct
  keys of \<^verbatim>\<open>requires\<close>. \<^verbatim>\<open>JSON.parse(JSON.stringify(undefined))\<close> raises a SyntaxError, and
  \<^verbatim>\<open>prevNode.requires\<close> on \<^verbatim>\<open>undefined\<close> a TypeError.\<close>

function relock_one :: "(string \<Rightarrow> bool) \<Rightarrow> dep_node \<Rightarrow> dep_node \<Rightarrow> string list \<Rightarrow> error + dep_node" where
  "relock_one isProject prevTree curTree path =
     (case relock_getNode curTree path of
        None \<Rightarrow> Inl SyntaxError
      | Some curNode \<Rightarrow>
          (case sequence (map (\<lambda>(key, curVer).
                  (case relock_getNode prevTree path of
                     None \<Rightarrow> Inl TypeError
                   | Some prevNode \<Rightarrow>
                       (case map_of (dn_requires prevNode) key of
                          None \<Rightarrow> push (relock_find (dn_dependencies curNode) key)
                        | Some prevVer \<Rightarrow>
                            if prevVer = [] then push (relock_find (dn_dependencies curNode) key)
                            else if notPatch curVer prevVer
                              then push (relock_find (dn_dependencies curNode) key)
                            else if prevVer \<noteq> curVer \<or> isProject key
                              then relock_one isProject prevTree curTree (path @ [key])
                            else push (relock_find (dn_dependencies prevNode) key))))
                (dn_requires curNode)) of
             Inl e \<Rightarrow> Inl e
           | Inr deps \<Rightarrow> Inr (DepNode (dn_name curNode) (dn_version curNode) (dn_semVer curNode)
                                   (dn_tag curNode) (dn_requires curNode) (dn_signature curNode) deps)))"
  by pat_completeness auto

lemma relock_find_mem: "relock_find ds n = Some d \<Longrightarrow> d \<in> set ds"
  by (auto simp: relock_find_def find_Some_iff)

lemma relock_find_name: "relock_find ds n = Some d \<Longrightarrow> dn_name d = n"
  by (auto simp: relock_find_def find_Some_iff)

lemma height_child: "d \<in> set (dn_dependencies node) \<Longrightarrow> height d < height node"
  by (cases node) (auto simp: less_Suc_eq_le)

lemma relock_getNode_length: "relock_getNode node path = Some n \<Longrightarrow> length path \<le> height node"
proof (induction path arbitrary: node)
  case Nil
  then show ?case by simp
next
  case (Cons part path)
  then obtain child where c: "relock_find (dn_dependencies node) part = Some child"
      "relock_getNode child path = Some n"
    by (auto split: option.splits)
  from Cons.IH[OF c(2)] height_child[OF relock_find_mem[OF c(1)]] show ?case by simp
qed

termination relock_one
  apply (relation "measure (\<lambda>(isProject, prevTree, curTree, path). Suc (height curTree) - length path)")
   apply simp
  apply (auto dest: relock_getNode_length)
  done

declare relock_one.simps [simp del]

definition relockTree :: "(string \<Rightarrow> string \<Rightarrow> bool) \<Rightarrow> string list \<Rightarrow> dep_node \<Rightarrow> dep_node \<Rightarrow> error + dep_node" where
  "relockTree re_search projectFiles prevTree curTree =
     relock_one (isProjectModule re_search projectFiles) prevTree curTree []"

section \<open>Hoister: \<^verbatim>\<open>flattenTree\<close>\<close>

record module =
  m_name :: string
  m_version :: string
  m_signature :: string
  m_variant :: string
  m_depth :: nat
  m_paths :: "string list"

text \<open>The body of the \<^verbatim>\<open>forEach\<close> of \<^verbatim>\<open>buildIndexes\<close> up to the recursive call: the module of
  the variant is created at its first occurrence, then its depth and paths are updated.\<close>

definition register :: "dep_node \<Rightarrow> string list \<Rightarrow> module list \<Rightarrow> module list" where
  "register dependency path modules =
     (let newPath = path @ [dn_name dependency];
          name = dn_name dependency @ ''|'' @ dn_version dependency @ ''|'' @ dn_signature dependency;
          modules1 =
            (if List.find (\<lambda>m. m_variant m = name) modules = None
             then modules @ [\<lparr>m_name = dn_name dependency, m_version = dn_version dependency,
                             m_signature = dn_signature dependency, m_variant = name,
                             m_depth = length path, m_paths = []\<rparr>]
             else modules)
      in map (\<lambda>m. if m_variant m = name
                   then m\<lparr>m_depth := min (m_depth m) (length path),
                          m_paths := m_paths m @ [join newPath]\<rparr>
                   else m) modules1)"

fun buildIndexes :: "dep_node \<Rightarrow> string list \<Rightarrow> module list \<Rightarrow> module list" where
  "buildIndexes (DepNode n v sv t r sg deps) path modules =
     foldl (\<lambda>ms dependency.
              buildIndexes dependency (path @ [dn_name dependency]) (register dependency path ms))
           modules deps"

text \<open>A node of the placement tree; its children are keyed by name. The root has no
  \<^verbatim>\<open>variant\<close>; the model stores the empty string there, and nothing reads it.\<close>

datatype pnode =
  PNode (pn_name: string) (pn_version: string) (pn_variant: string)
        (pn_dependencies: "(string \<times> pnode) list")

definition insert_variant :: "pnode \<Rightarrow> string \<Rightarrow> string \<Rightarrow> string \<Rightarrow> pnode" where
  "insert_variant node name version variant =
     PNode (pn_name node) (pn_version node) (pn_variant node)
       (AList.update name (PNode name version variant []) (pn_dependencies node))"

lemma map_of_size:
  "map_of deps k = Some (child :: pnode) \<Longrightarrow>
     size child < Suc (size_list (size_prod (\<lambda>_. 0) size) deps)"
  by (induction deps) (auto split: if_splits)

lemma get_property_Own: "get_property own key = Own v \<longleftrightarrow> own key = Some v"
  by (auto simp: get_property_def split: option.splits)

lemma child_size:
  "get_property (map_of (pn_dependencies node)) key = Own child \<Longrightarrow> size child < size node"
  by (cases node) (auto simp: get_property_Own dest: map_of_size)

text \<open>\<^verbatim>\<open>insert\<close>: the assignment \<^verbatim>\<open>node.dependencies[name] = {...}\<close> creates or replaces an own
  property, except for the name \<^verbatim>\<open>__proto__\<close>, where it replaces the prototype of
  \<^verbatim>\<open>node.dependencies\<close>: \<open>ProtoAccessor\<close>.\<close>

definition insert_node :: "pnode \<Rightarrow> string \<Rightarrow> string \<Rightarrow> string \<Rightarrow> error + pnode \<times> bool" where
  "insert_node node name version variant =
     (if name = ''__proto__'' then Inl ProtoAccessor
      else Inr (insert_variant node name version variant, True))"

text \<open>\<^verbatim>\<open>found.variant === variant\<close> for a truthy \<^verbatim>\<open>found\<close>.\<close>

definition has_variant :: "pnode property \<Rightarrow> string \<Rightarrow> bool" where
  "has_variant found variant \<longleftrightarrow> (case found of Own f \<Rightarrow> pn_variant f = variant | _ \<Rightarrow> False)"

text \<open>The \<^verbatim>\<open>do ... while\<close> loop of \<^verbatim>\<open>add\<close>. It returns the placement node it was started on,
  updated, and the value the source returns. \<^verbatim>\<open>searchPath.shift()\<close> on an empty array is
  \<^verbatim>\<open>undefined\<close>, which as a property name is \<^verbatim>\<open>"undefined"\<close>.

  Both reads of \<^verbatim>\<open>node.dependencies\<close> are reads of a plain object. An inherited member in
  the slot \<^verbatim>\<open>name\<close> is truthy and has no \<^verbatim>\<open>variant\<close>: the slot counts as taken by another
  variant. An inherited member in the slot \<^verbatim>\<open>part\<close> becomes \<^verbatim>\<open>node\<close>; it has no
  \<^verbatim>\<open>dependencies\<close>, and the read \<^verbatim>\<open>node.dependencies[name]\<close> of the next turn raises a
  TypeError, which the \<^verbatim>\<open>catch\<close> block logs and throws again.\<close>

function add_loop :: "pnode \<Rightarrow> string list \<Rightarrow> string \<Rightarrow> string \<Rightarrow> string \<Rightarrow> error + pnode \<times> bool" where
  "add_loop node searchPath name version variant =
     (let found = get_property (map_of (pn_dependencies node)) name in
      if found \<noteq> Undefined \<and> has_variant found variant then Inr (node, False)
      else if found \<noteq> Undefined then
        (let part = (case searchPath of [] \<Rightarrow> ''undefined'' | p # rest \<Rightarrow> p) in
         case get_property (map_of (pn_dependencies node)) part of
           Undefined \<Rightarrow> insert_node node name version variant
         | Own child \<Rightarrow>
             (case add_loop child (tl searchPath) name version variant of
                Inl e \<Rightarrow> Inl e
              | Inr (child', r) \<Rightarrow>
                  Inr (PNode (pn_name node) (pn_version node) (pn_variant node)
                         (AList.update part child' (pn_dependencies node)), r))
         | InheritedFunction \<Rightarrow> Inl TypeError
         | InheritedPrototype \<Rightarrow> Inl TypeError)
      else insert_node node name version variant)"
  by pat_completeness auto
termination
  by (relation "measure (\<lambda>(node, searchPath, name, version, variant). size node)")
     (auto dest: child_size)

declare add_loop.simps [simp del]

definition add :: "pnode \<Rightarrow> string \<Rightarrow> string \<Rightarrow> error + pnode" where
  "add flatTree path variant =
     (let searchPath = split CHR ''|'' path;
          spec = split CHR ''|'' variant;
          name = (case spec of [] \<Rightarrow> ''undefined'' | n # rest \<Rightarrow> n);
          version = (case spec of n # v # rest \<Rightarrow> v | _ \<Rightarrow> ''undefined'')
      in map_sum id fst (add_loop flatTree searchPath name version variant))"

text \<open>A \<^verbatim>\<open>forEach\<close> whose callback may throw: the first exception ends the loop.\<close>

definition for_each :: "('s \<Rightarrow> 'a \<Rightarrow> error + 's) \<Rightarrow> 's \<Rightarrow> 'a list \<Rightarrow> error + 's" where
  "for_each f s xs = foldl (\<lambda>acc x. case acc of Inl e \<Rightarrow> Inl e | Inr t \<Rightarrow> f t x) (Inr s) xs"

definition hoistOne :: "pnode \<Rightarrow> module \<Rightarrow> error + pnode" where
  "hoistOne flatTree m = for_each (\<lambda>ft path. add ft path (m_variant m)) flatTree (m_paths m)"

text \<open>The comparison function of \<^verbatim>\<open>sortModules\<close>. Every module has a first path: it is pushed
  when the module is created.\<close>

definition compare :: "module \<Rightarrow> module \<Rightarrow> int" where
  "compare a b =
     (let result = int (m_depth a) - int (m_depth b) in
      if result \<noteq> 0 then result
      else
        (let frequency = int (length (m_paths b)) - int (length (m_paths a)) in
         if frequency \<noteq> 0 then frequency
         else
           (let aPath = join (split CHR ''|'' (hd (m_paths a)) @ [m_name a]);
                bPath = join (split CHR ''|'' (hd (m_paths b)) @ [m_name b])
            in if aPath < bPath then - 1 else if aPath > bPath then 1 else 0)))"

text \<open>\<^verbatim>\<open>Array.prototype.sort\<close> with a comparison function is a stable sort.\<close>

fun insert_sorted :: "module \<Rightarrow> module list \<Rightarrow> module list" where
  "insert_sorted x [] = [x]"
| "insert_sorted x (y # ys) = (if compare x y < 0 then x # y # ys else y # insert_sorted x ys)"

definition sortModules :: "module list \<Rightarrow> module list" where
  "sortModules modules = foldl (\<lambda>sorted m. insert_sorted m sorted) [] modules"

definition hoist :: "dep_node \<Rightarrow> module list \<Rightarrow> error + pnode" where
  "hoist tree modules =
     for_each hoistOne (PNode (dn_name tree) (dn_version tree) [] []) (sortModules modules)"

definition flattenTree :: "dep_node \<Rightarrow> error + pnode" where
  "flattenTree tree = hoist tree (buildIndexes tree [] [])"

section \<open>Lock assembler: \<^verbatim>\<open>buildLockFile\<close>, and \<^verbatim>\<open>relock\<close>\<close>

record lock_file =
  lf_name :: "string option"
  lf_version :: string
  lf_lockfileVersion :: nat
  lf_requires :: bool
  lf_dependencies :: "(string \<times> lock_entry) list"

text \<open>\<^verbatim>\<open>buildLockFile.one\<close>. The keys are visited in sorted order; the record of a placement
  entry is looked up in \<^verbatim>\<open>versions\<close> and copied through \<^verbatim>\<open>JSON.parse(JSON.stringify(content))\<close>,
  which raises a SyntaxError when the record is \<^verbatim>\<open>undefined\<close>.\<close>

function blf_one :: "(string \<rightharpoonup> lock_entry) \<Rightarrow> pnode \<Rightarrow> error + (string \<times> lock_entry) list" where
  "blf_one vs flatNode =
     foldl (\<lambda>acc key.
              case acc of
                Inl e \<Rightarrow> Inl e
              | Inr dependencies \<Rightarrow>
                  (case map_of (pn_dependencies flatNode) key of
                     None \<Rightarrow> Inl TypeError
                   | Some dependency \<Rightarrow>
                       (case vs (pn_name dependency @ ''@'' @ pn_version dependency) of
                          None \<Rightarrow> Inl SyntaxError
                        | Some content \<Rightarrow>
                            (case blf_one vs dependency of
                               Inl e \<Rightarrow> Inl e
                             | Inr nested \<Rightarrow>
                                 Inr (AList.update (pn_name dependency)
                                        (LockEntry (le_version content) (le_meta content)
                                           (le_requires content) nested)
                                        dependencies)))))
           (Inr []) (sort (map fst (pn_dependencies flatNode)))"
  by pat_completeness auto
termination
  apply (relation "measure (\<lambda>(vs, flatNode). size flatNode)")
   apply simp
  subgoal for vs flatNode acc key dependencies dependency content
    by (cases flatNode) (auto dest: map_of_size)
  done

declare blf_one.simps [simp del]

definition buildLockFile :: "(string \<rightharpoonup> lock_entry) \<Rightarrow> pnode \<Rightarrow> string option \<Rightarrow> string \<Rightarrow> error + lock_file" where
  "buildLockFile vs tree curRoot_name curRoot_version =
     (case blf_one vs tree of
        Inl e \<Rightarrow> Inl e
      | Inr deps \<Rightarrow> Inr \<lparr>lf_name = curRoot_name, lf_version = curRoot_version,
                          lf_lockfileVersion = 1, lf_requires = True, lf_dependencies = deps\<rparr>)"

definition relock :: "nat \<Rightarrow> (string \<Rightarrow> string \<Rightarrow> bool) \<Rightarrow> string list \<Rightarrow> globals \<Rightarrow> lock_entry \<Rightarrow> lock_entry
                        \<Rightarrow> (error + lock_file \<times> globals) option" where
  "relock fuel re_search projectFiles g previous current =
     (case generateDependencyTree fuel g previous of
        None \<Rightarrow> None
      | Some (Inl e) \<Rightarrow> Some (Inl e)
      | Some (Inr (prevTree, g1)) \<Rightarrow>
          (case generateDependencyTree fuel g1 current of
             None \<Rightarrow> None
           | Some (Inl e) \<Rightarrow> Some (Inl e)
           | Some (Inr (curTree, g2)) \<Rightarrow>
               (case relockTree re_search projectFiles prevTree curTree of
                  Inl e \<Rightarrow> Some (Inl e)
                | Inr relockedTree \<Rightarrow>
                    (case flattenTree relockedTree of
                       Inl e \<Rightarrow> Some (Inl e)
                     | Inr finalTree \<Rightarrow>
                         (case buildLockFile (g_versions g2) finalTree
                                 (map_of (le_meta current) ''name'') (le_version current) of
                            Inl e \<Rightarrow> Some (Inl e)
                          | Inr lockFile \<Rightarrow> Some (Inr (lockFile, g2)))))))"

section \<open>Properties of the tree builder\<close>

subsection \<open>split and join\<close>

lemma split_acc_not_Nil: "split_acc c acc s \<noteq> []"
  by (induction s arbitrary: acc) auto

lemma join_Cons_not_Nil: "ys \<noteq> [] \<Longrightarrow> join (x # ys) = x @ CHR ''|'' # join ys"
  by (cases ys) auto

lemma join_split_acc: "join (split_acc CHR ''|'' acc s) = rev acc @ s"
  by (induction s arbitrary: acc) (auto simp: join_Cons_not_Nil split_acc_not_Nil)

lemma join_split: "join (split CHR ''|'' s) = s"
  by (simp add: split_def join_split_acc)

lemma split_not_Nil: "split c s \<noteq> []"
  by (simp add: split_def split_acc_not_Nil)

lemma join_snoc_not_Nil: "name \<noteq> [] \<Longrightarrow> join (searchPath @ [name]) \<noteq> []"
  by (induction searchPath rule: join.induct) auto

subsection \<open>getLockPath returns a lock path\<close>

lemma getLockPath_loop_returns:
  assumes "name \<noteq> []"
  shows "\<exists>r. getLockPath_loop lockPaths searchPath name = Some r \<and> (r = [] \<or> r \<in> set lockPaths)"
proof (induction searchPath rule: rev_induct)
  case Nil
  show ?case
    using assms by (subst getLockPath_loop.simps) (auto simp: Let_def)
next
  case (snoc x xs)
  show ?case
    using snoc assms join_snoc_not_Nil[OF assms, of "xs @ [x]"]
    by (subst getLockPath_loop.simps) (auto simp: Let_def)
qed

lemma getLockPath_returns:
  assumes "name \<noteq> []" and "[] \<in> set lockPaths"
  shows "\<exists>r. getLockPath lockPaths path name = Some r \<and> r \<in> set lockPaths"
  using getLockPath_loop_returns[OF assms(1), of lockPaths path] assms
  by (auto simp: getLockPath_def)

definition path_ok :: "string list \<Rightarrow> string list \<Rightarrow> bool" where
  "path_ok lockPaths path \<longleftrightarrow> path = [] \<or> (\<exists>rp \<in> set lockPaths. path = split CHR ''|'' rp)"

lemma getLockPath_own:
  assumes "path_ok lockPaths path" and "[] \<in> set lockPaths"
  shows "\<exists>r. getLockPath lockPaths (butlast path) (if path = [] then [] else last path) = Some r
             \<and> r \<in> set lockPaths"
proof (cases "path = []")
  case True
  with assms(2) show ?thesis by (simp add: getLockPath_def)
next
  case False
  with assms(1) obtain rp where rp: "rp \<in> set lockPaths" "path = split CHR ''|'' rp"
    by (auto simp: path_ok_def)
  from False have bl: "butlast path @ [last path] = path" by simp
  have j: "join (butlast path @ [last path]) = rp"
    unfolding bl unfolding rp(2) by (rule join_split)
  show ?thesis
  proof (cases "butlast path = [] \<and> last path = []")
    case True
    with False assms(2) show ?thesis by (simp add: getLockPath_def)
  next
    case nt: False
    have "rp \<noteq> []"
    proof
      assume "rp = []"
      with rp(2) have "path = [[]]" by (simp add: split_def)
      with nt show False by simp
    qed
    with j rp(1) have "getLockPath_loop lockPaths (butlast path) (last path) = Some rp"
      by (subst getLockPath_loop.simps) (simp add: Let_def)
    with nt False rp(1) show ?thesis by (auto simp: getLockPath_def)
  qed
qed

lemma gdt_find_returns:
  "getLockPath lockPaths path name = Some r \<Longrightarrow> \<exists>node. gdt_find root lockPaths name path = Some node"
  by (simp add: gdt_find_def)

subsection \<open>The entries of a lock file\<close>

fun entries_of :: "lock_entry \<Rightarrow> lock_entry set" where
  "entries_of (LockEntry v m r deps) =
     insert (LockEntry v m r deps) (\<Union>(k, d) \<in> set deps. entries_of d)"

lemma entries_of_self: "e \<in> entries_of e"
  by (cases e) simp

lemma entries_of_child:
  "map_of (le_dependencies e) k = Some d \<Longrightarrow> entries_of d \<subseteq> entries_of e"
  by (cases e) (auto dest: map_of_SomeD)

lemma entries_of_trans: "e \<in> entries_of root \<Longrightarrow> entries_of e \<subseteq> entries_of root"
proof (induction root)
  case (LockEntry v m r deps)
  show ?case
  proof (cases "e = LockEntry v m r deps")
    case True
    then show ?thesis by simp
  next
    case False
    with LockEntry.prems obtain k d where kd: "(k, d) \<in> set deps" "e \<in> entries_of d"
      by auto
    from kd(1) have "d \<in> Basic_BNFs.snds (k, d)" "(k, d) \<in> set deps" by auto
    from LockEntry.IH[OF this(2,1) kd(2)] kd(1) show ?thesis by auto
  qed
qed

lemma gdt_getNode_entry: "gdt_getNode root path \<in> entries_of root"
proof -
  have "e \<in> entries_of root \<Longrightarrow>
        foldl (\<lambda>node part. case map_of (le_dependencies node) part of
                             Some d \<Rightarrow> d | None \<Rightarrow> node) e path \<in> entries_of root" for e
  proof (induction path arbitrary: e)
    case Nil
    then show ?case by simp
  next
    case (Cons part path)
    show ?case
    proof (cases "map_of (le_dependencies e) part")
      case None
      with Cons show ?thesis by simp
    next
      case (Some d)
      with entries_of_child[OF Some] entries_of_self[of d] entries_of_trans[OF Cons.prems]
      have "d \<in> entries_of root" by blast
      with Cons.IH[OF this] Some show ?thesis by simp
    qed
  qed
  from this[OF entries_of_self] show ?thesis by (simp add: gdt_getNode_def)
qed

lemma gdt_find_entry: "gdt_find root lockPaths name path = Some node \<Longrightarrow> node \<in> entries_of root"
  by (auto simp: gdt_find_def entries_of_self gdt_getNode_entry split: if_splits)

subsection \<open>Termination of the builder\<close>

text \<open>A name is plain when it is not empty, does not contain the separator \<open>|\<close> and is not
  the name of a member of \<^verbatim>\<open>Object.prototype\<close>. A lock file is well formed when the names it
  requires and the names of its dependencies are plain.\<close>

definition plain_name :: "string \<Rightarrow> bool" where
  "plain_name s \<longleftrightarrow>
     s \<noteq> [] \<and> CHR ''|'' \<notin> set s \<and> s \<notin> set object_prototype_functions \<and> s \<noteq> ''__proto__''"

definition wf_lock :: "lock_entry \<Rightarrow> bool" where
  "wf_lock root \<longleftrightarrow>
     (\<forall>e \<in> entries_of root.
        (\<forall>kv \<in> set (le_requires e). plain_name (fst kv))
        \<and> (\<forall>kd \<in> set (le_dependencies e). plain_name (fst kd)))"

definition wf_names :: "lock_entry \<Rightarrow> bool" where
  "wf_names root \<longleftrightarrow> (\<forall>e \<in> entries_of root. \<forall>kv \<in> set (le_requires e). fst kv \<noteq> [])"

definition not_inherited :: "string \<Rightarrow> bool" where
  "not_inherited key \<longleftrightarrow> key \<notin> set object_prototype_functions \<and> key \<noteq> ''__proto__''"

lemma get_property_not_inherited:
  "not_inherited key \<Longrightarrow>
     get_property own key = (case own key of Some v \<Rightarrow> Own v | None \<Rightarrow> Undefined)"
  by (simp add: get_property_def not_inherited_def split: option.splits)

lemma wf_lock_names: "wf_lock root \<Longrightarrow> wf_names root"
  by (auto simp: wf_lock_def wf_names_def plain_name_def)

lemma inherited_no_bar: "CHR ''|'' \<in> set key \<Longrightarrow> not_inherited key"
  by (auto simp: not_inherited_def object_prototype_functions_def)

lemma plain_not_inherited: "plain_name key \<Longrightarrow> not_inherited key"
  by (simp add: plain_name_def not_inherited_def)

lemma join_bar: "ks \<noteq> [] \<Longrightarrow> CHR ''|'' \<in> set (join (k # ks))"
  by (cases ks) auto

lemma buildPaths_one_plain:
  assumes "\<forall>e' \<in> entries_of e. \<forall>kd \<in> set (le_dependencies e'). plain_name (fst kd)"
    and "lp \<in> set (buildPaths_one e path)"
  shows "\<exists>ks. ks \<noteq> [] \<and> (\<forall>k \<in> set ks. plain_name k) \<and> lp = join (path @ ks)"
  using assms
proof (induction e arbitrary: path)
  case (LockEntry v m r deps)
  from LockEntry.prems(2) obtain key depNode where
    kd: "(key, depNode) \<in> set deps"
    and lp: "lp = join (path @ [key]) \<or> lp \<in> set (buildPaths_one depNode (path @ [key]))"
    by auto
  from kd LockEntry.prems(1) have pk: "plain_name key" by force
  from lp show ?case
  proof
    assume "lp = join (path @ [key])"
    with pk show ?thesis by (intro exI[of _ "[key]"]) simp
  next
    assume in_child: "lp \<in> set (buildPaths_one depNode (path @ [key]))"
    from kd have sn: "depNode \<in> Basic_BNFs.snds (key, depNode)" "(key, depNode) \<in> set deps" by auto
    have sub: "\<forall>e' \<in> entries_of depNode. \<forall>kd \<in> set (le_dependencies e'). plain_name (fst kd)"
      using LockEntry.prems(1) kd by force
    from LockEntry.IH[OF sn(2,1) sub in_child] obtain ks where
      ks: "ks \<noteq> []" "\<forall>k \<in> set ks. plain_name k" "lp = join ((path @ [key]) @ ks)" by blast
    with pk show ?thesis by (intro exI[of _ "key # ks"]) simp
  qed
qed

lemma buildPaths_not_inherited:
  assumes "wf_lock root" and "lp \<in> set (buildPaths root)"
  shows "not_inherited lp"
proof (cases "lp = []")
  case True
  then show ?thesis by (simp add: not_inherited_def object_prototype_functions_def)
next
  case False
  with assms(2) have "lp \<in> set (buildPaths_one root [])" by (simp add: buildPaths_def)
  moreover from assms(1) have
    "\<forall>e' \<in> entries_of root. \<forall>kd \<in> set (le_dependencies e'). plain_name (fst kd)"
    by (simp add: wf_lock_def)
  ultimately obtain ks where
    ks: "ks \<noteq> []" "\<forall>k \<in> set ks. plain_name k" "lp = join ([] @ ks)"
    using buildPaths_one_plain by blast
  then obtain k rest where kr: "ks = k # rest" by (cases ks) auto
  show ?thesis
  proof (cases rest)
    case Nil
    with ks kr show ?thesis by (simp add: plain_not_inherited)
  next
    case (Cons a list)
    with ks(3) kr join_bar[of rest k] show ?thesis by (simp add: inherited_no_bar)
  qed
qed

lemma card_Diff_insert_less:
  assumes "x \<in> set lockPaths" "x \<notin> set stk" "card (set lockPaths - set stk) < Suc n"
  shows "card (set lockPaths - set (stk @ [x])) < n"
proof -
  have "set lockPaths - set (stk @ [x]) = (set lockPaths - set stk) - {x}" by auto
  moreover have "x \<in> set lockPaths - set stk" using assms by simp
  ultimately have "card (set lockPaths - set (stk @ [x])) = card (set lockPaths - set stk) - 1"
    by simp
  moreover have "card (set lockPaths - set stk) > 0"
    using \<open>x \<in> set lockPaths - set stk\<close> by (metis card_gt_0_iff empty_iff finite_Diff finite_set)
  ultimately show ?thesis using assms(3) by linarith
qed

lemma gdt_returns:
  assumes wf: "wf_names root" and empty: "[] \<in> set lockPaths"
    and plain: "\<forall>lp \<in> set lockPaths. not_inherited lp"
  shows "(\<forall>path st. path_ok lockPaths path \<longrightarrow> card (set lockPaths - set (stack st)) < fuel \<longrightarrow>
            (\<exists>ds st'. gdt_one fuel root lockPaths path st = Some (Inr (ds, st')) \<and> stack st' = stack st))
       \<and> (\<forall>path reqs deps st. (\<forall>kv \<in> set reqs. fst kv \<noteq> []) \<longrightarrow>
            card (set lockPaths - set (stack st)) < fuel \<longrightarrow>
            (\<exists>ds st'. gdt_requires fuel root lockPaths path reqs deps st = Some (Inr (ds, st'))
                      \<and> stack st' = stack st))"
proof (induction fuel)
  case 0
  show ?case by simp
next
  case (Suc n)
  have one: "\<exists>ds st'. gdt_one (Suc n) root lockPaths path st = Some (Inr (ds, st')) \<and> stack st' = stack st"
    if ok: "path_ok lockPaths path" and c: "card (set lockPaths - set (stack st)) < Suc n" for path st
  proof -
    from getLockPath_own[OF ok empty] obtain lp where
      lp: "getLockPath lockPaths (butlast path) (if path = [] then [] else last path) = Some lp"
        "lp \<in> set lockPaths" by blast
    show ?thesis
    proof (cases "lp \<in> set (stack st)")
      case True
      with lp show ?thesis by (simp add: Let_def)
    next
      case False
      let ?st1 = "st\<lparr>stack := stack st @ [lp]\<rparr>"
      from gdt_find_returns[OF lp(1)] obtain lockNode where
        ln: "gdt_find root lockPaths (if path = [] then [] else last path) (butlast path) = Some lockNode"
        by blast
      from plain lp(2) have ni: "not_inherited lp" by blast
      show ?thesis
      proof (cases "processed st lp")
        case (Some deps)
        with lp False ln show ?thesis by (simp add: Let_def get_property_not_inherited[OF ni])
      next
        case None
        from gdt_find_entry[OF ln] wf have names: "\<forall>kv \<in> set (le_requires lockNode). fst kv \<noteq> []"
          by (auto simp: wf_names_def)
        from card_Diff_insert_less[OF lp(2) False c]
        have c1: "card (set lockPaths - set (stack ?st1)) < n" by simp
        from Suc names c1 obtain ds st2 where
          r: "gdt_requires n root lockPaths path (le_requires lockNode) [] ?st1 = Some (Inr (ds, st2))"
            "stack st2 = stack ?st1"
          by blast
        with lp False ln None show ?thesis by (simp add: Let_def get_property_not_inherited[OF ni])
      qed
    qed
  qed
  have req: "\<exists>ds st'. gdt_requires (Suc n) root lockPaths path reqs deps st = Some (Inr (ds, st'))
                \<and> stack st' = stack st"
    if names: "\<forall>kv \<in> set reqs. fst kv \<noteq> []" and c: "card (set lockPaths - set (stack st)) < Suc n"
    for path reqs deps st
    using names c
  proof (induction reqs arbitrary: deps st)
    case Nil
    show ?case by simp
  next
    case (Cons kv rest)
    obtain name semVer where kv: "kv = (name, semVer)" by (cases kv)
    with Cons.prems have ne: "name \<noteq> []" by simp
    from getLockPath_returns[OF ne empty] obtain realPath where
      rp: "getLockPath lockPaths path name = Some realPath" "realPath \<in> set lockPaths" by blast
    from gdt_find_returns[OF rp(1)] obtain match where
      m: "gdt_find root lockPaths name path = Some match" by blast
    let ?st1 = "st\<lparr>versions := (versions st)(name @ ''@'' @ le_version match \<mapsto> delete_dependencies match)\<rparr>"
    have ok: "path_ok lockPaths (split CHR ''|'' realPath)"
      using rp(2) by (auto simp: path_ok_def)
    from one[OF ok, of ?st1] Cons.prems(2) obtain nd st2 where
      o: "gdt_one (Suc n) root lockPaths (split CHR ''|'' realPath) ?st1 = Some (Inr (nd, st2))"
        "stack st2 = stack st"
      by auto
    let ?node = "DepNode name (le_version match) semVer (name @ ''@'' @ le_version match)
                   (le_requires match) (getTreeSignature nd) nd"
    let ?st3 = "st2\<lparr>dependencyTrees := (dependencyTrees st2)(getTreeSignature nd \<mapsto> nd)\<rparr>"
    from Cons.prems o(2) have "\<forall>kv \<in> set rest. fst kv \<noteq> []"
      "card (set lockPaths - set (stack ?st3)) < Suc n" by simp_all
    from Cons.IH[OF this, of "deps @ [?node]"] obtain ds st' where
      "gdt_requires (Suc n) root lockPaths path rest (deps @ [?node]) ?st3 = Some (Inr (ds, st'))"
      "stack st' = stack ?st3" by blast
    with kv rp m o show ?case
      by (simp add: Let_def object_truthy_def)
  qed
  from one req show ?case by blast
qed

lemma buildPaths_hd: "[] \<in> set (buildPaths root)"
  by (simp add: buildPaths_def)

lemma generateDependencyTree_returns:
  assumes "wf_lock root" and "length (buildPaths root) < fuel"
  shows "\<exists>tree g'. generateDependencyTree fuel g root = Some (Inr (tree, g'))"
proof -
  let ?st0 = "\<lparr>stack = [], processed = Map.empty, versions = g_versions g,
                dependencyTrees = g_dependencyTrees g\<rparr>"
  have "card (set (buildPaths root) - set (stack ?st0)) \<le> length (buildPaths root)"
    by (simp add: card_length)
  with assms(2) have c: "card (set (buildPaths root) - set (stack ?st0)) < fuel" by linarith
  have ok: "path_ok (buildPaths root) []" by (simp add: path_ok_def)
  have plain: "\<forall>lp \<in> set (buildPaths root). not_inherited lp"
    using buildPaths_not_inherited[OF assms(1)] by blast
  from gdt_returns[OF wf_lock_names[OF assms(1)] buildPaths_hd plain, where fuel = fuel] ok c
  obtain ds st' where
    "gdt_one fuel root (buildPaths root) [] ?st0 = Some (Inr (ds, st'))" by blast
  then show ?thesis by (simp add: generateDependencyTree_def Let_def)
qed

subsection \<open>Case analysis of a run of the builder\<close>

lemma gdt_one_cases [consumes 1, case_names cyclic memo fresh]:
  assumes "gdt_one (Suc n) root lockPaths path st = Some (Inr (ds, st'))"
  obtains
    lp where "getLockPath lockPaths (butlast path) (if path = [] then [] else last path) = Some lp"
      "lp \<in> set (stack st)" "ds = []" "st' = st"
  | lp lockNode where "getLockPath lockPaths (butlast path) (if path = [] then [] else last path) = Some lp"
      "lp \<notin> set (stack st)"
      "gdt_find root lockPaths (if path = [] then [] else last path) (butlast path) = Some lockNode"
      "processed st lp = Some ds" "st' = st"
  | lp lockNode st2 where "getLockPath lockPaths (butlast path) (if path = [] then [] else last path) = Some lp"
      "lp \<notin> set (stack st)"
      "gdt_find root lockPaths (if path = [] then [] else last path) (butlast path) = Some lockNode"
      "processed st lp = None"
      "gdt_requires n root lockPaths path (le_requires lockNode) [] (st\<lparr>stack := stack st @ [lp]\<rparr>)
         = Some (Inr (ds, st2))"
      "st' = st2\<lparr>stack := butlast (stack st2), processed := (processed st2)(lp \<mapsto> ds)\<rparr>"
proof -
  let ?name = "if path = [] then [] else last path"
  from assms obtain lp where lp: "getLockPath lockPaths (butlast path) ?name = Some lp"
    by (cases "getLockPath lockPaths (butlast path) ?name") (simp_all add: Let_def)
  show thesis
  proof (cases "lp \<in> set (stack st)")
    case True
    with assms lp have "ds = []" "st' = st" by (simp_all add: Let_def)
    with lp True show thesis by (rule that(1))
  next
    case False
    with assms lp obtain lockNode where
      ln: "gdt_find root lockPaths ?name (butlast path) = Some lockNode"
      by (cases "gdt_find root lockPaths ?name (butlast path)") (simp_all add: Let_def)
    show thesis
    proof (cases "processed st lp")
      case (Some deps)
      with assms lp False ln have "ds = deps" "st' = st"
        by (simp_all add: Let_def get_property_def)
      with lp False ln Some show thesis using that(2) by simp
    next
      case None
      let ?r = "gdt_requires n root lockPaths path (le_requires lockNode) []
                  (st\<lparr>stack := stack st @ [lp]\<rparr>)"
      from assms lp False ln None obtain st2 where
        r: "?r = Some (Inr (ds, st2))"
          "st' = st2\<lparr>stack := butlast (stack st2), processed := (processed st2)(lp \<mapsto> ds)\<rparr>"
        by (cases ?r) (auto simp: Let_def get_property_def split: sum.splits if_splits)
      with lp False ln None show thesis using that(3) by simp
    qed
  qed
qed

lemma gdt_requires_cases [consumes 1, case_names step]:
  assumes "gdt_requires n root lockPaths path ((name, semVer) # rest) deps st = Some (Inr (ds, st'))"
  obtains realPath match nd st2 where
      "getLockPath lockPaths path name = Some realPath"
      "gdt_find root lockPaths name path = Some match"
      "gdt_one n root lockPaths (split CHR ''|'' realPath)
         (st\<lparr>versions := (versions st)(name @ ''@'' @ le_version match \<mapsto> delete_dependencies match)\<rparr>)
         = Some (Inr (nd, st2))"
      "gdt_requires n root lockPaths path rest
         (deps @ [DepNode name (le_version match) semVer (name @ ''@'' @ le_version match)
                    (le_requires match) (getTreeSignature nd) nd])
         (st2\<lparr>dependencyTrees := (dependencyTrees st2)(getTreeSignature nd \<mapsto> nd)\<rparr>)
         = Some (Inr (ds, st'))"
proof -
  from assms obtain realPath where rp: "getLockPath lockPaths path name = Some realPath"
    by (cases "getLockPath lockPaths path name") simp_all
  with assms obtain match where m: "gdt_find root lockPaths name path = Some match"
    by (cases "gdt_find root lockPaths name path") simp_all
  let ?st1 = "st\<lparr>versions := (versions st)(name @ ''@'' @ le_version match \<mapsto> delete_dependencies match)\<rparr>"
  let ?o = "gdt_one n root lockPaths (split CHR ''|'' realPath) ?st1"
  from assms rp m obtain nd st2 where o: "?o = Some (Inr (nd, st2))"
    by (cases ?o) (auto simp: Let_def object_truthy_def split: sum.splits)
  with assms rp m have
    "gdt_requires n root lockPaths path rest
         (deps @ [DepNode name (le_version match) semVer (name @ ''@'' @ le_version match)
                    (le_requires match) (getTreeSignature nd) nd])
         (st2\<lparr>dependencyTrees := (dependencyTrees st2)(getTreeSignature nd \<mapsto> nd)\<rparr>)
         = Some (Inr (ds, st'))"
    by (simp add: Let_def object_truthy_def)
  with rp m o show thesis by (rule that)
qed

subsection \<open>What the builder builds\<close>

fun nodes_of :: "dep_node \<Rightarrow> dep_node set" where
  "nodes_of (DepNode n v sv t r sg ds) =
     insert (DepNode n v sv t r sg ds) (\<Union>d \<in> set ds. nodes_of d)"

definition below :: "dep_node list \<Rightarrow> dep_node set" where
  "below ds = (\<Union>d \<in> set ds. nodes_of d)"

lemma nodes_of_eq: "nodes_of d = insert d (below (dn_dependencies d))"
  by (cases d) (simp add: below_def)

lemma below_simps [simp]:
  "below [] = {}"
  "below (d # ds) = nodes_of d \<union> below ds"
  "below (xs @ ys) = below xs \<union> below ys"
  by (auto simp: below_def)

definition required_names :: "lock_entry \<Rightarrow> string set" where
  "required_names root = (\<Union>e \<in> entries_of root. fst ` set (le_requires e))"

definition node_ok :: "lock_entry \<Rightarrow> (string \<rightharpoonup> lock_entry) \<Rightarrow> dep_node \<Rightarrow> bool" where
  "node_ok root V n \<longleftrightarrow>
     dn_signature n = getTreeSignature (dn_dependencies n)
     \<and> dn_tag n = dn_name n @ ''@'' @ dn_version n
     \<and> V (dn_name n @ ''@'' @ dn_version n) \<noteq> None
     \<and> dn_name n \<in> required_names root
     \<and> dn_version n \<in> le_version ` entries_of root"

definition list_ok :: "lock_entry \<Rightarrow> (string \<rightharpoonup> lock_entry) \<Rightarrow> dep_node list \<Rightarrow> bool" where
  "list_ok root V ds \<longleftrightarrow> (\<forall>n \<in> below ds. node_ok root V n)"

definition memo_ok :: "lock_entry \<Rightarrow> bstate \<Rightarrow> bool" where
  "memo_ok root st \<longleftrightarrow> (\<forall>lp ds. processed st lp = Some ds \<longrightarrow> list_ok root (versions st) ds)"

lemma node_ok_mono: "dom V \<subseteq> dom V' \<Longrightarrow> node_ok root V n \<Longrightarrow> node_ok root V' n"
  by (auto simp: node_ok_def)

lemma list_ok_mono: "dom V \<subseteq> dom V' \<Longrightarrow> list_ok root V ds \<Longrightarrow> list_ok root V' ds"
  by (auto simp: list_ok_def intro: node_ok_mono)

lemma memo_ok_versions:
  "memo_ok root st \<Longrightarrow> memo_ok root (st\<lparr>versions := (versions st)(k \<mapsto> v)\<rparr>)"
  unfolding memo_ok_def
  by (auto intro: list_ok_mono[of "versions st"])

lemma gdt_builds:
  "(\<forall>path st ds st'. gdt_one fuel root lockPaths path st = Some (Inr (ds, st')) \<longrightarrow> memo_ok root st \<longrightarrow>
       memo_ok root st' \<and> list_ok root (versions st') ds
       \<and> dom (versions st) \<subseteq> dom (versions st')
       \<and> dom (dependencyTrees st) \<subseteq> dom (dependencyTrees st'))
   \<and> (\<forall>path reqs deps st ds st'.
       gdt_requires fuel root lockPaths path reqs deps st = Some (Inr (ds, st')) \<longrightarrow>
       memo_ok root st \<longrightarrow> list_ok root (versions st) deps \<longrightarrow>
       fst ` set reqs \<subseteq> required_names root \<longrightarrow>
       memo_ok root st' \<and> list_ok root (versions st') ds
       \<and> dom (versions st) \<subseteq> dom (versions st')
       \<and> dom (dependencyTrees st) \<subseteq> dom (dependencyTrees st'))"
proof (induction fuel)
  case 0
  have z: "reqs = [] \<and> ds = deps \<and> st' = st"
    if run: "gdt_requires 0 root lockPaths path reqs deps st = Some (Inr (ds, st'))"
    for path reqs deps st ds st'
  proof (cases reqs)
    case Nil
    with run show ?thesis by simp
  next
    case (Cons kv rest)
    obtain name semVer where kv: "kv = (name, semVer)" by (cases kv)
    from run[unfolded Cons kv] show ?thesis
      by (cases rule: gdt_requires_cases) simp
  qed
  show ?case by (auto dest!: z)
next
  case (Suc n)
  have one: "memo_ok root st' \<and> list_ok root (versions st') ds
       \<and> dom (versions st) \<subseteq> dom (versions st')
       \<and> dom (dependencyTrees st) \<subseteq> dom (dependencyTrees st')"
    if run: "gdt_one (Suc n) root lockPaths path st = Some (Inr (ds, st'))" and memo: "memo_ok root st"
    for path st ds st'
    using run
  proof (cases rule: gdt_one_cases)
    case (cyclic lp)
    with memo show ?thesis by (simp add: list_ok_def)
  next
    case (memo lp lockNode)
    with \<open>memo_ok root st\<close> show ?thesis by (auto simp: memo_ok_def)
  next
    case (fresh lp lockNode st2)
    let ?st1 = "st\<lparr>stack := stack st @ [lp]\<rparr>"
    have m1: "memo_ok root ?st1" using memo by (simp add: memo_ok_def)
    have l1: "list_ok root (versions ?st1) []" by (simp add: list_ok_def)
    have n1: "fst ` set (le_requires lockNode) \<subseteq> required_names root"
      using gdt_find_entry[OF fresh(3)] by (auto simp: required_names_def)
    from Suc fresh(5) m1 l1 n1
    have r: "memo_ok root st2" "list_ok root (versions st2) ds"
      "dom (versions ?st1) \<subseteq> dom (versions st2)"
      "dom (dependencyTrees ?st1) \<subseteq> dom (dependencyTrees st2)"
      by blast+
    from r(1,2) have "memo_ok root st'"
      unfolding fresh(6) by (auto simp: memo_ok_def)
    with r fresh(6) show ?thesis by simp
  qed
  have req: "memo_ok root st' \<and> list_ok root (versions st') ds
       \<and> dom (versions st) \<subseteq> dom (versions st')
       \<and> dom (dependencyTrees st) \<subseteq> dom (dependencyTrees st')"
    if run: "gdt_requires (Suc n) root lockPaths path reqs deps st = Some (Inr (ds, st'))"
      and memo: "memo_ok root st" and acc: "list_ok root (versions st) deps"
      and names: "fst ` set reqs \<subseteq> required_names root"
    for path reqs deps st ds st'
    using run memo acc names
  proof (induction reqs arbitrary: deps st)
    case Nil
    then show ?case by simp
  next
    case (Cons kv rest)
    obtain name semVer where kv: "kv = (name, semVer)" by (cases kv)
    from Cons.prems(1)[unfolded kv] show ?case
    proof (cases rule: gdt_requires_cases)
      case (step realPath match nd st2)
      let ?k = "name @ ''@'' @ le_version match"
      let ?st1 = "st\<lparr>versions := (versions st)(?k \<mapsto> delete_dependencies match)\<rparr>"
      let ?node = "DepNode name (le_version match) semVer ?k (le_requires match) (getTreeSignature nd) nd"
      let ?st3 = "st2\<lparr>dependencyTrees := (dependencyTrees st2)(getTreeSignature nd \<mapsto> nd)\<rparr>"
      have m1: "memo_ok root ?st1" using Cons.prems(2) by (rule memo_ok_versions)
      from one[OF step(3) m1]
      have o: "memo_ok root st2" "list_ok root (versions st2) nd"
        "dom (versions ?st1) \<subseteq> dom (versions st2)"
        "dom (dependencyTrees ?st1) \<subseteq> dom (dependencyTrees st2)"
        by blast+
      have d: "dom (versions st) \<subseteq> dom (versions st2)" using o(3) by auto
      have k: "versions st2 ?k \<noteq> None" using o(3) by auto
      have nm: "name \<in> required_names root" using Cons.prems(4) kv by auto
      have vr: "le_version match \<in> le_version ` entries_of root"
        using gdt_find_entry[OF step(2)] by blast
      have nok: "node_ok root (versions st2) ?node"
        using k nm vr by (simp add: node_ok_def)
      have acc3: "list_ok root (versions ?st3) (deps @ [?node])"
        using list_ok_mono[OF d Cons.prems(3)] o(2) nok
        by (auto simp: list_ok_def below_def)
      have m3: "memo_ok root ?st3" using o(1) by (simp add: memo_ok_def)
      have n3: "fst ` set rest \<subseteq> required_names root" using Cons.prems(4) by auto
      from Cons.IH[OF step(4) m3 acc3 n3]
      have ih: "memo_ok root st'" "list_ok root (versions st') ds"
        "dom (versions ?st3) \<subseteq> dom (versions st')"
        "dom (dependencyTrees ?st3) \<subseteq> dom (dependencyTrees st')"
        by blast+
      have t2: "dom (dependencyTrees st) \<subseteq> dom (dependencyTrees st2)" using o(4) by simp
      have t3: "dom (dependencyTrees st2) \<subseteq> dom (dependencyTrees ?st3)" by auto
      have v3: "dom (versions st2) \<subseteq> dom (versions ?st3)" by simp
      from d v3 ih(3) have dv: "dom (versions st) \<subseteq> dom (versions st')" by blast
      from t2 t3 ih(4) have dt: "dom (dependencyTrees st) \<subseteq> dom (dependencyTrees st')" by blast
      from ih(1,2) dv dt show ?thesis by simp
    qed
  qed
  from one req show ?case by blast
qed

subsection \<open>Every requirement gets a node\<close>

text \<open>The dependency list of a node is either empty (the expansion was cut as a circular
  reference, or the entry requires nothing) or it has one node for each requirement of the
  node, in the order of \<^verbatim>\<open>requires\<close>, under the required name and range.\<close>

definition requirement_of :: "dep_node \<Rightarrow> string \<times> string" where
  "requirement_of d = (dn_name d, dn_semVer d)"

definition expanded :: "dep_node \<Rightarrow> bool" where
  "expanded n \<longleftrightarrow>
     dn_dependencies n = [] \<or> map requirement_of (dn_dependencies n) = dn_requires n"

definition all_expanded :: "dep_node list \<Rightarrow> bool" where
  "all_expanded ds \<longleftrightarrow> (\<forall>n \<in> below ds. expanded n)"

definition lock_node :: "lock_entry \<Rightarrow> string \<Rightarrow> lock_entry" where
  "lock_node root lp = gdt_getNode root (split CHR ''|'' lp)"

definition memo_covers :: "lock_entry \<Rightarrow> bstate \<Rightarrow> bool" where
  "memo_covers root st \<longleftrightarrow>
     (\<forall>lp ds. processed st lp = Some ds \<longrightarrow>
        map requirement_of ds = le_requires (lock_node root lp) \<and> all_expanded ds)"

lemma below_append: "below (xs @ ys) = below xs \<union> below ys"
  by (simp add: below_def)

lemma all_expanded_snoc:
  "all_expanded deps \<Longrightarrow> all_expanded (dn_dependencies n) \<Longrightarrow> expanded n
     \<Longrightarrow> all_expanded (deps @ [n])"
  by (auto simp: all_expanded_def below_append nodes_of_eq[of n])

lemma gdt_find_lock_node:
  assumes "map_of (le_dependencies root) [] = None"
    and "getLockPath lockPaths path name = Some lp"
    and "gdt_find root lockPaths name path = Some node"
  shows "node = lock_node root lp"
proof (cases "name = [] \<and> path = []")
  case True
  with assms(2) have "lp = []" by (simp add: getLockPath_def)
  moreover from True assms(3) have "node = root" by (simp add: gdt_find_def)
  ultimately show ?thesis
    using assms(1) by (simp add: lock_node_def gdt_getNode_def split_def)
next
  case False
  with assms(2,3) show ?thesis by (auto simp: gdt_find_def lock_node_def)
qed

lemma getLockPath_split:
  assumes "rp \<in> set lockPaths"
  shows "getLockPath lockPaths (butlast (split CHR ''|'' rp)) (last (split CHR ''|'' rp)) = Some rp"
proof -
  let ?path = "split CHR ''|'' rp"
  have ne: "?path \<noteq> []" by (rule split_not_Nil)
  then have bl: "butlast ?path @ [last ?path] = ?path" by simp
  have j: "join (butlast ?path @ [last ?path]) = rp"
    unfolding bl by (rule join_split)
  show ?thesis
  proof (cases "butlast ?path = [] \<and> last ?path = []")
    case True
    with j have "rp = []" by simp
    with True show ?thesis by (simp add: getLockPath_def)
  next
    case nt: False
    have "rp \<noteq> []"
    proof
      assume "rp = []"
      then have "?path = [[]]" by (simp add: split_def)
      with nt show False by simp
    qed
    with j assms have "getLockPath_loop lockPaths (butlast ?path) (last ?path) = Some rp"
      by (subst getLockPath_loop.simps) (simp add: Let_def)
    with nt show ?thesis by (auto simp: getLockPath_def)
  qed
qed

lemma gdt_covers:
  assumes wf: "wf_names root" and empty: "[] \<in> set lockPaths"
    and nokey: "map_of (le_dependencies root) [] = None"
  shows
  "(\<forall>path st ds st' lp. gdt_one fuel root lockPaths path st = Some (Inr (ds, st')) \<longrightarrow>
       memo_covers root st \<longrightarrow>
       getLockPath lockPaths (butlast path) (if path = [] then [] else last path) = Some lp \<longrightarrow>
       memo_covers root st' \<and> all_expanded ds
       \<and> (ds = [] \<or> map requirement_of ds = le_requires (lock_node root lp)))
   \<and> (\<forall>path reqs deps st ds st'.
       gdt_requires fuel root lockPaths path reqs deps st = Some (Inr (ds, st')) \<longrightarrow>
       memo_covers root st \<longrightarrow> all_expanded deps \<longrightarrow> (\<forall>kv \<in> set reqs. fst kv \<noteq> []) \<longrightarrow>
       memo_covers root st' \<and> all_expanded ds
       \<and> map requirement_of ds = map requirement_of deps @ reqs)"
proof (induction fuel)
  case 0
  have z: "reqs = [] \<and> ds = deps \<and> st' = st"
    if run: "gdt_requires 0 root lockPaths path reqs deps st = Some (Inr (ds, st'))"
    for path reqs deps st ds st'
  proof (cases reqs)
    case Nil
    with run show ?thesis by simp
  next
    case (Cons kv rest)
    obtain name semVer where kv: "kv = (name, semVer)" by (cases kv)
    from run[unfolded Cons kv] show ?thesis
      by (cases rule: gdt_requires_cases) simp
  qed
  show ?case by (auto dest!: z)
next
  case (Suc n)
  have one: "memo_covers root st' \<and> all_expanded ds
       \<and> (ds = [] \<or> map requirement_of ds = le_requires (lock_node root lp))"
    if run: "gdt_one (Suc n) root lockPaths path st = Some (Inr (ds, st'))"
      and memo: "memo_covers root st"
      and lp: "getLockPath lockPaths (butlast path) (if path = [] then [] else last path) = Some lp"
    for path st ds st' lp
    using run
  proof (cases rule: gdt_one_cases)
    case (cyclic lp')
    with memo show ?thesis by (simp add: all_expanded_def)
  next
    case (memo lp' lockNode)
    with lp have "lp' = lp" by simp
    with memo(4,5) \<open>memo_covers root st\<close> show ?thesis by (auto simp: memo_covers_def)
  next
    case (fresh lp' lockNode st2)
    with lp have same: "lp' = lp" by simp
    let ?st1 = "st\<lparr>stack := stack st @ [lp']\<rparr>"
    have m1: "memo_covers root ?st1" using memo by (simp add: memo_covers_def)
    have e1: "all_expanded []" by (simp add: all_expanded_def)
    have n1: "\<forall>kv \<in> set (le_requires lockNode). fst kv \<noteq> []"
      using gdt_find_entry[OF fresh(3)] wf by (auto simp: wf_names_def)
    from Suc fresh(5) m1 e1 n1
    have r: "memo_covers root st2" "all_expanded ds"
      "map requirement_of ds = map requirement_of [] @ le_requires lockNode"
      by blast+
    from gdt_find_lock_node[OF nokey fresh(1) fresh(3)] same
    have ln: "lockNode = lock_node root lp" by simp
    from r(3) ln have c: "map requirement_of ds = le_requires (lock_node root lp)" by simp
    from r(1,2) c same have "memo_covers root st'"
      unfolding fresh(6) by (auto simp: memo_covers_def)
    with r(2) c show ?thesis by simp
  qed
  have req: "memo_covers root st' \<and> all_expanded ds
       \<and> map requirement_of ds = map requirement_of deps @ reqs"
    if run: "gdt_requires (Suc n) root lockPaths path reqs deps st = Some (Inr (ds, st'))"
      and memo: "memo_covers root st" and acc: "all_expanded deps"
      and names: "\<forall>kv \<in> set reqs. fst kv \<noteq> []"
    for path reqs deps st ds st'
    using run memo acc names
  proof (induction reqs arbitrary: deps st)
    case Nil
    then show ?case by simp
  next
    case (Cons kv rest)
    obtain name semVer where kv: "kv = (name, semVer)" by (cases kv)
    with Cons.prems(4) have ne: "name \<noteq> []" by simp
    from Cons.prems(1)[unfolded kv] show ?case
    proof (cases rule: gdt_requires_cases)
      case (step realPath match nd st2)
      let ?k = "name @ ''@'' @ le_version match"
      let ?st1 = "st\<lparr>versions := (versions st)(?k \<mapsto> delete_dependencies match)\<rparr>"
      let ?node = "DepNode name (le_version match) semVer ?k (le_requires match) (getTreeSignature nd) nd"
      let ?st3 = "st2\<lparr>dependencyTrees := (dependencyTrees st2)(getTreeSignature nd \<mapsto> nd)\<rparr>"
      let ?path = "split CHR ''|'' realPath"
      from getLockPath_returns[OF ne empty, of path] step(1)
      have rp: "realPath \<in> set lockPaths" by auto
      have pne: "?path \<noteq> []" by (rule split_not_Nil)
      from getLockPath_split[OF rp] pne
      have lp: "getLockPath lockPaths (butlast ?path) (if ?path = [] then [] else last ?path)
                  = Some realPath" by simp
      have m1: "memo_covers root ?st1" using Cons.prems(2) by (simp add: memo_covers_def)
      from one[OF step(3) m1 lp]
      have o: "memo_covers root st2" "all_expanded nd"
        "nd = [] \<or> map requirement_of nd = le_requires (lock_node root realPath)"
        by blast+
      from gdt_find_lock_node[OF nokey step(1) step(2)]
      have mt: "match = lock_node root realPath" .
      from o(3) mt have ex: "expanded ?node" by (simp add: expanded_def)
      have acc3: "all_expanded (deps @ [?node])"
        using all_expanded_snoc[OF Cons.prems(3), of ?node] o(2) ex by simp
      have m3: "memo_covers root ?st3" using o(1) by (simp add: memo_covers_def)
      have n3: "\<forall>kv \<in> set rest. fst kv \<noteq> []" using Cons.prems(4) by simp
      from Cons.IH[OF step(4) m3 acc3 n3]
      have ih: "memo_covers root st'" "all_expanded ds"
        "map requirement_of ds = map requirement_of (deps @ [?node]) @ rest"
        by blast+
      have "requirement_of ?node = (name, semVer)" by (simp add: requirement_of_def)
      with ih kv show ?thesis by simp
    qed
  qed
  from one req show ?case by blast
qed

lemma no_empty_key:
  assumes "wf_lock root"
  shows "map_of (le_dependencies root) [] = None"
proof -
  from assms entries_of_self[of root] have "\<forall>kd \<in> set (le_dependencies root). fst kd \<noteq> []"
    by (auto simp: wf_lock_def plain_name_def)
  then show ?thesis by (force simp: map_of_eq_None_iff)
qed

lemma generateDependencyTree_covers:
  assumes "wf_lock root" and "generateDependencyTree fuel g root = Some (Inr (tree, g'))"
  shows "map requirement_of (dn_dependencies tree) = le_requires root"
    and "all_expanded (dn_dependencies tree)"
proof -
  let ?s0 = "\<lparr>stack = [], processed = Map.empty, versions = g_versions g,
                dependencyTrees = g_dependencyTrees g\<rparr>"
  from assms(2) obtain ds st where
    run: "gdt_one fuel root (buildPaths root) [] ?s0 = Some (Inr (ds, st))"
    and t: "tree = DepNode [] (le_version root) [] [] (le_requires root) (getTreeSignature ds) ds"
    by (auto simp: generateDependencyTree_def Let_def split: option.splits sum.splits prod.splits)
  from run obtain n where fuel: "fuel = Suc n" by (cases fuel) simp_all
  note cov = gdt_covers[OF wf_lock_names[OF assms(1)] buildPaths_hd no_empty_key[OF assms(1)]]
  have names: "\<forall>kv \<in> set (le_requires root). fst kv \<noteq> []"
    using wf_lock_names[OF assms(1)] entries_of_self[of root] by (auto simp: wf_names_def)
  from run[unfolded fuel] have "map requirement_of ds = le_requires root \<and> all_expanded ds"
  proof (cases rule: gdt_one_cases)
    case (cyclic lp)
    then show ?thesis by simp
  next
    case (memo lp lockNode)
    then show ?thesis by simp
  next
    case (fresh lp lockNode st2)
    from fresh(3) have ln: "lockNode = root" by (simp add: gdt_find_def)
    let ?s1 = "?s0\<lparr>stack := stack ?s0 @ [lp]\<rparr>"
    have m: "memo_covers root ?s1" by (simp add: memo_covers_def)
    have e: "all_expanded []" by (simp add: all_expanded_def)
    from cov[where fuel = n] fresh(5) m e names ln
    have "all_expanded ds" "map requirement_of ds = map requirement_of [] @ le_requires root"
      by blast+
    then show ?thesis by simp
  qed
  with t show "map requirement_of (dn_dependencies tree) = le_requires root"
    and "all_expanded (dn_dependencies tree)" by simp_all
qed

subsection \<open>The tables a run starts from do not influence the tree\<close>

definition local_eq :: "bstate \<Rightarrow> bstate \<Rightarrow> bool" where
  "local_eq s t \<longleftrightarrow> stack s = stack t \<and> processed s = processed t"

definition same_run :: "(error + dep_node list \<times> bstate) option
                          \<Rightarrow> (error + dep_node list \<times> bstate) option \<Rightarrow> bool" where
  "same_run x y \<longleftrightarrow>
     (case x of
        None \<Rightarrow> y = None
      | Some (Inl e) \<Rightarrow> y = Some (Inl e)
      | Some (Inr (ds, s')) \<Rightarrow> (\<exists>t'. y = Some (Inr (ds, t')) \<and> local_eq s' t'))"

lemma same_run_None [simp]: "same_run None None"
  by (simp add: same_run_def)

lemma same_run_Inl [simp]: "same_run (Some (Inl e)) (Some (Inl e))"
  by (simp add: same_run_def)

lemma same_run_Inr [simp]: "same_run (Some (Inr (ds, s))) (Some (Inr (ds', t))) \<longleftrightarrow> ds = ds' \<and> local_eq s t"
  by (auto simp: same_run_def)

lemma same_run_cases:
  assumes "same_run x y"
  obtains "x = None" "y = None"
  | e where "x = Some (Inl e)" "y = Some (Inl e)"
  | ds s t where "x = Some (Inr (ds, s))" "y = Some (Inr (ds, t))" "local_eq s t"
  using assms
  by (auto simp: same_run_def split: option.splits sum.splits prod.splits)

lemma gdt_same_run:
  "(\<forall>path s t. local_eq s t \<longrightarrow>
      same_run (gdt_one fuel root lockPaths path s) (gdt_one fuel root lockPaths path t))
   \<and> (\<forall>path reqs deps s t. local_eq s t \<longrightarrow>
      same_run (gdt_requires fuel root lockPaths path reqs deps s)
               (gdt_requires fuel root lockPaths path reqs deps t))"
proof (induction fuel)
  case 0
  have "same_run (gdt_requires 0 root lockPaths path reqs deps s)
                 (gdt_requires 0 root lockPaths path reqs deps t)"
    if "local_eq s t" for path reqs deps s t
  proof (cases reqs)
    case Nil
    with that show ?thesis by simp
  next
    case (Cons kv rest)
    obtain name semVer where kv: "kv = (name, semVer)" by (cases kv)
    show ?thesis
      unfolding Cons kv
      by (simp add: Let_def object_truthy_def split: option.splits)
  qed
  then show ?case by simp
next
  case (Suc n)
  have one: "same_run (gdt_one (Suc n) root lockPaths path s) (gdt_one (Suc n) root lockPaths path t)"
    if eq: "local_eq s t" for path s t
  proof -
    let ?name = "if path = [] then [] else last path"
    show ?thesis
    proof (cases "getLockPath lockPaths (butlast path) ?name")
      case None
      then show ?thesis by (simp add: Let_def)
    next
      case (Some lp)
      note lp = Some
      show ?thesis
      proof (cases "lp \<in> set (stack s)")
        case True
        with lp eq show ?thesis by (simp add: Let_def local_eq_def)
      next
        case False
        with eq have Ft: "lp \<notin> set (stack t)" by (simp add: local_eq_def)
        show ?thesis
        proof (cases "gdt_find root lockPaths ?name (butlast path)")
          case None
          with lp False Ft show ?thesis by (simp add: Let_def)
        next
          case (Some lockNode)
          note ln = Some
          from eq have pe: "processed t = processed s" by (simp add: local_eq_def)
          show ?thesis
          proof (cases "get_property (processed s) lp")
            case (Own deps)
            with pe lp False Ft ln eq show ?thesis by (simp add: Let_def local_eq_def)
          next
            case InheritedFunction
            with pe lp False Ft ln show ?thesis by (simp add: Let_def)
          next
            case InheritedPrototype
            with pe lp False Ft ln show ?thesis by (simp add: Let_def)
          next
            case Undefined
            note None = Undefined
            from pe Undefined have Nt: "get_property (processed t) lp = Undefined" by simp
            let ?s1 = "s\<lparr>stack := stack s @ [lp]\<rparr>" and ?t1 = "t\<lparr>stack := stack t @ [lp]\<rparr>"
            have "local_eq ?s1 ?t1" using eq by (simp add: local_eq_def)
            with Suc have "same_run (gdt_requires n root lockPaths path (le_requires lockNode) [] ?s1)
                                    (gdt_requires n root lockPaths path (le_requires lockNode) [] ?t1)"
              by blast
            then show ?thesis
            proof (cases rule: same_run_cases)
              case 1
              with lp False Ft ln None Nt show ?thesis by (simp add: Let_def)
            next
              case (2 e)
              with lp False Ft ln None Nt show ?thesis by (simp add: Let_def)
            next
              case (3 ds s2 t2)
              with lp False Ft ln None Nt show ?thesis by (simp add: Let_def local_eq_def)
            qed
          qed
        qed
      qed
    qed
  qed
  have req: "same_run (gdt_requires (Suc n) root lockPaths path reqs deps s)
                      (gdt_requires (Suc n) root lockPaths path reqs deps t)"
    if eq: "local_eq s t" for path reqs deps s t
    using eq
  proof (induction reqs arbitrary: deps s t)
    case Nil
    then show ?case by simp
  next
    case (Cons kv rest)
    obtain name semVer where kv: "kv = (name, semVer)" by (cases kv)
    show ?case
    proof (cases "getLockPath lockPaths path name")
      case None
      then show ?thesis by (simp add: kv)
    next
      case (Some realPath)
      note rp = Some
      show ?thesis
      proof (cases "gdt_find root lockPaths name path")
        case None
        with rp show ?thesis by (simp add: kv)
      next
        case (Some match)
        let ?k = "name @ ''@'' @ le_version match"
        let ?s1 = "s\<lparr>versions := (versions s)(?k \<mapsto> delete_dependencies match)\<rparr>"
        let ?t1 = "t\<lparr>versions := (versions t)(?k \<mapsto> delete_dependencies match)\<rparr>"
        have "local_eq ?s1 ?t1" using Cons.prems by (simp add: local_eq_def)
        from one[OF this]
        have "same_run (gdt_one (Suc n) root lockPaths (split CHR ''|'' realPath) ?s1)
                       (gdt_one (Suc n) root lockPaths (split CHR ''|'' realPath) ?t1)" .
        then show ?thesis
        proof (cases rule: same_run_cases)
          case 1
          with rp Some show ?thesis by (simp add: kv Let_def object_truthy_def)
        next
          case (2 e)
          with rp Some show ?thesis by (simp add: kv Let_def object_truthy_def)
        next
          case (3 nd s2 t2)
          let ?node = "DepNode name (le_version match) semVer ?k (le_requires match) (getTreeSignature nd) nd"
          let ?s3 = "s2\<lparr>dependencyTrees := (dependencyTrees s2)(getTreeSignature nd \<mapsto> nd)\<rparr>"
          let ?t3 = "t2\<lparr>dependencyTrees := (dependencyTrees t2)(getTreeSignature nd \<mapsto> nd)\<rparr>"
          have "local_eq ?s3 ?t3" using 3(3) by (simp add: local_eq_def)
          from Cons.IH[OF this, of "deps @ [?node]"] 3 rp Some show ?thesis
            by (simp add: kv Let_def object_truthy_def)
        qed
      qed
    qed
  qed
  from one req show ?case by blast
qed

lemma generateDependencyTree_tree_independent:
  "map_option (map_sum id fst) (generateDependencyTree fuel g root)
     = map_option (map_sum id fst) (generateDependencyTree fuel h root)"
proof -
  let ?s0 = "\<lparr>stack = [], processed = Map.empty, versions = g_versions g,
                dependencyTrees = g_dependencyTrees g\<rparr>"
  let ?t0 = "\<lparr>stack = [], processed = Map.empty, versions = g_versions h,
                dependencyTrees = g_dependencyTrees h\<rparr>"
  have "local_eq ?s0 ?t0" by (simp add: local_eq_def)
  with gdt_same_run[of fuel root "buildPaths root"]
  have "same_run (gdt_one fuel root (buildPaths root) [] ?s0) (gdt_one fuel root (buildPaths root) [] ?t0)"
    by blast
  then show ?thesis
    by (cases rule: same_run_cases) (simp_all add: generateDependencyTree_def Let_def)
qed

lemma generateDependencyTree_builds:
  assumes "generateDependencyTree fuel g root = Some (Inr (tree, g'))"
  shows "list_ok root (g_versions g') (dn_dependencies tree)"
    and "dn_signature tree = getTreeSignature (dn_dependencies tree)"
    and "dom (g_versions g) \<subseteq> dom (g_versions g')"
    and "dom (g_dependencyTrees g) \<subseteq> dom (g_dependencyTrees g')"
    and "dn_name tree = []" and "dn_version tree = le_version root"
    and "dn_requires tree = le_requires root"
proof -
  let ?s0 = "\<lparr>stack = [], processed = Map.empty, versions = g_versions g,
                dependencyTrees = g_dependencyTrees g\<rparr>"
  from assms obtain ds st where
    run: "gdt_one fuel root (buildPaths root) [] ?s0 = Some (Inr (ds, st))"
    and t: "tree = DepNode [] (le_version root) [] [] (le_requires root) (getTreeSignature ds) ds"
    and g': "g' = \<lparr>g_versions = versions st,
                   g_dependencyTrees = (dependencyTrees st)(getTreeSignature ds \<mapsto> ds)\<rparr>"
    by (auto simp: generateDependencyTree_def Let_def split: option.splits sum.splits prod.splits)
  have "memo_ok root ?s0" by (simp add: memo_ok_def)
  with gdt_builds[of fuel root "buildPaths root"] run
  have r: "list_ok root (versions st) ds" "dom (versions ?s0) \<subseteq> dom (versions st)"
    "dom (dependencyTrees ?s0) \<subseteq> dom (dependencyTrees st)"
    by blast+
  from r(1) t g' show "list_ok root (g_versions g') (dn_dependencies tree)" by simp
  from t show "dn_signature tree = getTreeSignature (dn_dependencies tree)" by simp
  from r(2) g' show "dom (g_versions g) \<subseteq> dom (g_versions g')" by simp
  from r(3) g' show "dom (g_dependencyTrees g) \<subseteq> dom (g_dependencyTrees g')" by auto
  from t show "dn_name tree = []" "dn_version tree = le_version root"
    "dn_requires tree = le_requires root" by simp_all
qed

section \<open>Facts about the relock differ\<close>

lemma sequence_Inr_length: "sequence rs = Inr xs \<Longrightarrow> length xs = length rs"
  by (induction rs arbitrary: xs rule: sequence.induct) (auto split: sum.splits)

lemma sequence_Inr_nth: "sequence rs = Inr xs \<Longrightarrow> i < length rs \<Longrightarrow> rs ! i = Inr (xs ! i)"
proof (induction rs arbitrary: xs i rule: sequence.induct)
  case 1
  then show ?case by simp
next
  case (2 e rs)
  then show ?case by simp
next
  case (3 x rs)
  then obtain ys where ys: "sequence rs = Inr ys" "xs = x # ys"
    by (auto split: sum.splits)
  show ?case
  proof (cases i)
    case 0
    with ys show ?thesis by simp
  next
    case (Suc j)
    with 3 ys show ?thesis by simp
  qed
qed

lemma relock_getNode_append:
  "relock_getNode node (path @ [key]) =
     (case relock_getNode node path of
        None \<Rightarrow> None
      | Some n \<Rightarrow> relock_find (dn_dependencies n) key)"
  by (induction path arbitrary: node) (auto split: option.splits)

lemma notPatch_same: "\<not> notPatch v v"
  by (simp add: notPatch_def)

lemma push_Inr: "push x = Inr d \<longleftrightarrow> x = Some d"
  by (auto simp: push_def split: option.splits)

text \<open>The node that \<open>relock_one\<close> returns is the current node with a rebuilt dependency
  list, one entry per entry of the current node's \<open>requires\<close>, in order.\<close>

lemma relock_one_fields:
  assumes "relock_one isProject prevTree curTree path = Inr relockNode"
    and "relock_getNode curTree path = Some curNode"
  shows "dn_name relockNode = dn_name curNode \<and> dn_version relockNode = dn_version curNode
       \<and> dn_semVer relockNode = dn_semVer curNode \<and> dn_tag relockNode = dn_tag curNode
       \<and> dn_requires relockNode = dn_requires curNode
       \<and> dn_signature relockNode = dn_signature curNode
       \<and> length (dn_dependencies relockNode) = length (dn_requires curNode)"
  using assms
  by (subst (asm) relock_one.simps) (auto split: sum.splits dest: sequence_Inr_length)

lemma relock_one_entry:
  assumes "relock_one isProject prevTree curTree path = Inr relockNode"
    and "relock_getNode curTree path = Some curNode"
    and "relock_getNode prevTree path = Some prevNode"
    and "i < length (dn_requires curNode)"
    and "dn_requires curNode ! i = (key, curVer)"
  shows "(case map_of (dn_requires prevNode) key of
            None \<Rightarrow> push (relock_find (dn_dependencies curNode) key)
          | Some prevVer \<Rightarrow>
              if prevVer = [] then push (relock_find (dn_dependencies curNode) key)
              else if notPatch curVer prevVer then push (relock_find (dn_dependencies curNode) key)
              else if prevVer \<noteq> curVer \<or> isProject key
                then relock_one isProject prevTree curTree (path @ [key])
              else push (relock_find (dn_dependencies prevNode) key))
         = Inr (dn_dependencies relockNode ! i)"
proof -
  let ?f = "\<lambda>(key, curVer).
                  (case relock_getNode prevTree path of
                     None \<Rightarrow> Inl TypeError
                   | Some prevNode \<Rightarrow>
                       (case map_of (dn_requires prevNode) key of
                          None \<Rightarrow> push (relock_find (dn_dependencies curNode) key)
                        | Some prevVer \<Rightarrow>
                            if prevVer = [] then push (relock_find (dn_dependencies curNode) key)
                            else if notPatch curVer prevVer
                              then push (relock_find (dn_dependencies curNode) key)
                            else if prevVer \<noteq> curVer \<or> isProject key
                              then relock_one isProject prevTree curTree (path @ [key])
                            else push (relock_find (dn_dependencies prevNode) key)))"
  from assms(1,2) have seq: "sequence (map ?f (dn_requires curNode)) = Inr (dn_dependencies relockNode)"
    by (subst (asm) relock_one.simps) (auto split: sum.splits)
  from sequence_Inr_nth[OF seq, of i] assms(4)
  have "?f (dn_requires curNode ! i) = Inr (dn_dependencies relockNode ! i)"
    by simp
  with assms(3,5) show ?thesis by simp
qed

text \<open>A requirement whose previous range is present, not empty and within the same
  major and minor, and which changed or names a project module, is re-examined: its entry
  is what \<open>relock_one\<close> returns one level down, the current child with a rebuilt
  dependency list.\<close>

lemma relock_reexamined:
  assumes "relock_one isProject prevTree curTree path = Inr relockNode"
    and "relock_getNode curTree path = Some curNode"
    and "relock_getNode prevTree path = Some prevNode"
    and "i < length (dn_requires curNode)"
    and "dn_requires curNode ! i = (key, curVer)"
    and "map_of (dn_requires prevNode) key = Some prevVer"
    and "prevVer \<noteq> []" and "\<not> notPatch curVer prevVer"
    and "prevVer \<noteq> curVer \<or> isProject key"
  shows "\<exists>curChild. relock_find (dn_dependencies curNode) key = Some curChild
      \<and> relock_one isProject prevTree curTree (path @ [key]) = Inr (dn_dependencies relockNode ! i)
      \<and> dn_name (dn_dependencies relockNode ! i) = dn_name curChild
      \<and> dn_version (dn_dependencies relockNode ! i) = dn_version curChild
      \<and> dn_semVer (dn_dependencies relockNode ! i) = dn_semVer curChild
      \<and> dn_tag (dn_dependencies relockNode ! i) = dn_tag curChild
      \<and> dn_requires (dn_dependencies relockNode ! i) = dn_requires curChild
      \<and> dn_signature (dn_dependencies relockNode ! i) = dn_signature curChild
      \<and> length (dn_dependencies (dn_dependencies relockNode ! i)) = length (dn_requires curChild)"
proof -
  from relock_one_entry[OF assms(1-5)] assms(6-9)
  have rec: "relock_one isProject prevTree curTree (path @ [key]) = Inr (dn_dependencies relockNode ! i)"
    by (auto split: if_splits)
  then obtain curChild where c: "relock_getNode curTree (path @ [key]) = Some curChild"
    by (subst (asm) relock_one.simps) (auto split: option.splits)
  with assms(2) have f: "relock_find (dn_dependencies curNode) key = Some curChild"
    by (simp add: relock_getNode_append)
  from relock_one_fields[OF rec c] rec f show ?thesis by simp
qed

lemma relock_keeps_previous_subtree:
  assumes "relock_one isProject prevTree curTree path = Inr relockNode"
    and "relock_getNode curTree path = Some curNode"
    and "relock_getNode prevTree path = Some prevNode"
    and "i < length (dn_requires curNode)"
    and "dn_requires curNode ! i = (key, curVer)"
    and "map_of (dn_requires prevNode) key = Some curVer"
    and "curVer \<noteq> []"
    and "\<not> isProject key"
  shows "relock_find (dn_dependencies prevNode) key = Some (dn_dependencies relockNode ! i)"
  using relock_one_entry[OF assms(1-5)] assms(6-8)
  by (simp add: notPatch_same push_Inr)

section \<open>Example trees\<close>

text \<open>A node as \<open>gdt_requires\<close> builds it, and a root as \<open>generateDependencyTree\<close> builds it.\<close>

definition built :: "string \<Rightarrow> string \<Rightarrow> string \<Rightarrow> (string \<times> string) list \<Rightarrow> dep_node list \<Rightarrow> dep_node" where
  "built name version semVer reqs deps =
     DepNode name version semVer (name @ ''@'' @ version) reqs (getTreeSignature deps) deps"

definition built_root :: "string \<Rightarrow> (string \<times> string) list \<Rightarrow> dep_node list \<Rightarrow> dep_node" where
  "built_root version reqs deps = DepNode [] version [] [] reqs (getTreeSignature deps) deps"

text \<open>\<^verbatim>\<open>RegExp\<close> search for a pattern without metacharacters is substring search.\<close>

fun is_prefix :: "string \<Rightarrow> string \<Rightarrow> bool" where
  "is_prefix [] s = True"
| "is_prefix (p # ps) [] = False"
| "is_prefix (p # ps) (x # xs) = (p = x \<and> is_prefix ps xs)"

fun literal_search :: "string \<Rightarrow> string \<Rightarrow> bool" where
  "literal_search pattern [] = (pattern = [])"
| "literal_search pattern (x # xs) = (is_prefix pattern (x # xs) \<or> literal_search pattern xs)"

lemmas relock_eval = relockTree_def relock_one.simps built_def built_root_def relock_find_def
  push_def notPatch_def cleanSemVer_def split_def component_def isProjectModule_def

subsection \<open>Unchanged empty range\<close>

definition c1_prev :: dep_node where
  "c1_prev = built_root ''1.0.0'' [(''x'', [])] [built ''x'' ''1.0.0'' [] [] []]"

definition c1_cur :: dep_node where
  "c1_cur = built_root ''1.0.0'' [(''x'', [])] [built ''x'' ''1.0.1'' [] [] []]"

text \<open>C1. Claim: a requirement whose range string is identical to the previous one and
  which is not a project module keeps the previous subtree. The source tests
  \<^verbatim>\<open>if (!prevVer)\<close> for "it didnt exist", and the empty range string (any version) is falsy:
  for the requirement \<^verbatim>\<open>"x": ""\<close>, unchanged, the relocked tree carries the current
  subtree \<open>x@1.0.1\<close>, not the previous \<open>x@1.0.0\<close>.\<close>

theorem relock_empty_range_takes_current:
  "relockTree literal_search [] c1_prev c1_cur =
     Inr (built_root ''1.0.0'' [(''x'', [])] [built ''x'' ''1.0.1'' [] [] []])
   \<and> relock_find (dn_dependencies c1_prev) ''x'' = Some (built ''x'' ''1.0.0'' [] [] [])
   \<and> \<not> isProjectModule literal_search [] ''x''"
  by (simp add: relock_eval c1_prev_def c1_cur_def)

subsection \<open>Patch-level change of a range\<close>

definition c2_prev :: dep_node where
  "c2_prev = built_root ''1.0.0'' [(''x'', ''^1.2.0'')]
     [built ''x'' ''1.2.3'' ''^1.2.0'' [(''c'', ''^2.0.0'')] [built ''c'' ''2.0.1'' ''^2.0.0'' [] []]]"

definition c2_cur :: dep_node where
  "c2_cur = built_root ''1.0.0'' [(''x'', ''^1.2.5'')]
     [built ''x'' ''1.2.5'' ''^1.2.5'' [(''c'', ''^2.0.0'')] [built ''c'' ''2.0.2'' ''^2.0.0'' [] []]]"

definition c2_mixed :: dep_node where
  "c2_mixed = DepNode [] ''1.0.0'' [] [] [(''x'', ''^1.2.5'')] (dn_signature c2_cur)
     [DepNode ''x'' ''1.2.5'' ''^1.2.5'' ''x@1.2.5'' [(''c'', ''^2.0.0'')]
        (getTreeSignature [built ''c'' ''2.0.2'' ''^2.0.0'' [] []])
        [built ''c'' ''2.0.1'' ''^2.0.0'' [] []]]"

lemma c2_relockTree: "relockTree literal_search [] c2_prev c2_cur = Inr c2_mixed"
  by (simp add: relock_eval c2_prev_def c2_cur_def c2_mixed_def)

text \<open>C2, as stated: after a patch-only change of the range of \<open>x\<close> (\<open>^1.2.0\<close> to \<open>^1.2.5\<close>) the
  relocked tree carries the previous subtree of \<open>x\<close> unchanged. It does not: the entry for
  \<open>x\<close> is the current node \<open>x@1.2.5\<close>, and only its child \<open>c\<close>, whose range did not change,
  is the previous \<open>c@2.0.1\<close>.\<close>

theorem patch_change_carries_current_node:
  "relockTree literal_search [] c2_prev c2_cur = Inr c2_mixed
   \<and> map dn_version (dn_dependencies c2_prev) = [''1.2.3'']
   \<and> map dn_version (dn_dependencies c2_mixed) = [''1.2.5'']
   \<and> relock_find (dn_dependencies c2_mixed) ''x'' \<noteq> relock_find (dn_dependencies c2_prev) ''x''"
  by (simp add: c2_relockTree) (simp add: c2_prev_def c2_mixed_def built_def built_root_def relock_find_def)

text \<open>C2, amended: when the range of a requirement changed at patch level only (the previous
  range is present and not empty, major and minor agree, the strings differ), the entry of
  the relocked node is the node that \<open>relock_one\<close> returns for the child: the current child
  (its name, version, range, tag, requires and signature) with a dependency list rebuilt
  by the same policy, one entry per requirement of the current child.\<close>

theorem relock_patch_change_reexamined:
  assumes "relock_one isProject prevTree curTree path = Inr relockNode"
    and "relock_getNode curTree path = Some curNode"
    and "relock_getNode prevTree path = Some prevNode"
    and "i < length (dn_requires curNode)"
    and "dn_requires curNode ! i = (key, curVer)"
    and "map_of (dn_requires prevNode) key = Some prevVer"
    and "prevVer \<noteq> []" and "\<not> notPatch curVer prevVer"
    and "prevVer \<noteq> curVer"
  shows "\<exists>curChild. relock_find (dn_dependencies curNode) key = Some curChild
      \<and> relock_one isProject prevTree curTree (path @ [key]) = Inr (dn_dependencies relockNode ! i)
      \<and> dn_name (dn_dependencies relockNode ! i) = dn_name curChild
      \<and> dn_version (dn_dependencies relockNode ! i) = dn_version curChild
      \<and> dn_semVer (dn_dependencies relockNode ! i) = dn_semVer curChild
      \<and> dn_tag (dn_dependencies relockNode ! i) = dn_tag curChild
      \<and> dn_requires (dn_dependencies relockNode ! i) = dn_requires curChild
      \<and> dn_signature (dn_dependencies relockNode ! i) = dn_signature curChild
      \<and> length (dn_dependencies (dn_dependencies relockNode ! i)) = length (dn_requires curChild)"
  using relock_reexamined[OF assms(1-8)] assms(9) by simp

theorem relock_patch_change_reexamined_witness:
  "relock_one (isProjectModule literal_search []) c2_prev c2_cur [] = Inr c2_mixed
   \<and> map_of (dn_requires c2_prev) ''x'' = Some ''^1.2.0''
   \<and> dn_requires c2_cur ! 0 = (''x'', ''^1.2.5'')
   \<and> \<not> notPatch ''^1.2.5'' ''^1.2.0''
   \<and> (\<exists>curChild. relock_find (dn_dependencies c2_cur) ''x'' = Some curChild
      \<and> relock_one (isProjectModule literal_search []) c2_prev c2_cur ([] @ [''x''])
           = Inr (dn_dependencies c2_mixed ! 0)
      \<and> dn_name (dn_dependencies c2_mixed ! 0) = dn_name curChild
      \<and> dn_version (dn_dependencies c2_mixed ! 0) = dn_version curChild
      \<and> dn_semVer (dn_dependencies c2_mixed ! 0) = dn_semVer curChild
      \<and> dn_tag (dn_dependencies c2_mixed ! 0) = dn_tag curChild
      \<and> dn_requires (dn_dependencies c2_mixed ! 0) = dn_requires curChild
      \<and> dn_signature (dn_dependencies c2_mixed ! 0) = dn_signature curChild
      \<and> length (dn_dependencies (dn_dependencies c2_mixed ! 0)) = length (dn_requires curChild))"
proof -
  have r: "relock_one (isProjectModule literal_search []) c2_prev c2_cur [] = Inr c2_mixed"
    using c2_relockTree by (simp add: relockTree_def)
  have np: "\<not> notPatch ''^1.2.5'' ''^1.2.0''"
    by (simp add: notPatch_def cleanSemVer_def split_def component_def)
  have p: "map_of (dn_requires c2_prev) ''x'' = Some ''^1.2.0''"
    by (simp add: c2_prev_def built_root_def)
  have c: "dn_requires c2_cur ! 0 = (''x'', ''^1.2.5'')"
    by (simp add: c2_cur_def built_root_def)
  have l: "0 < length (dn_requires c2_cur)"
    by (simp add: c2_cur_def built_root_def)
  from relock_patch_change_reexamined[OF r _ _ l c p _ np] r np p c show ?thesis
    by simp
qed

subsection \<open>Minor change of the range of a project module\<close>

definition c4_prev :: dep_node where
  "c4_prev = built_root ''1.0.0'' [(''p'', ''^1.2.0'')]
     [built ''p'' ''1.2.0'' ''^1.2.0'' [(''c'', ''^1.0.0'')] [built ''c'' ''1.0.0'' ''^1.0.0'' [] []]]"

definition c4_cur :: dep_node where
  "c4_cur = built_root ''1.0.0'' [(''p'', ''^1.3.0'')]
     [built ''p'' ''1.3.0'' ''^1.3.0'' [(''c'', ''^1.0.0'')] [built ''c'' ''1.0.1'' ''^1.0.0'' [] []]]"

lemma c4_relockTree: "relockTree literal_search [''p''] c4_prev c4_cur = Inr c4_cur"
  by (simp add: relock_eval c4_prev_def c4_cur_def)



text \<open>C4, as stated: a project module is always re-examined, never taken from the current
  tree wholesale. The tests for a new requirement and for a change beyond patch level come
  first: the project module \<open>p\<close>, whose range went from \<open>^1.2.0\<close> to \<open>^1.3.0\<close>, is taken from
  the current tree as it is, with the current \<open>c@1.0.1\<close>; re-examining \<open>p\<close> would have
  kept the previous \<open>c@1.0.0\<close>.\<close>

theorem project_module_minor_change_taken_wholesale:
  "isProjectModule literal_search [''p''] ''p''
   \<and> relockTree literal_search [''p''] c4_prev c4_cur = Inr c4_cur
   \<and> dn_dependencies c4_cur =
       [built ''p'' ''1.3.0'' ''^1.3.0'' [(''c'', ''^1.0.0'')] [built ''c'' ''1.0.1'' ''^1.0.0'' [] []]]
   \<and> relock_one (isProjectModule literal_search [''p'']) c4_prev c4_cur [''p''] =
       Inr (DepNode ''p'' ''1.3.0'' ''^1.3.0'' ''p@1.3.0'' [(''c'', ''^1.0.0'')]
              (getTreeSignature [built ''c'' ''1.0.1'' ''^1.0.0'' [] []])
              [built ''c'' ''1.0.0'' ''^1.0.0'' [] []])"
  by (simp add: c4_relockTree) (simp add: relock_eval c4_prev_def c4_cur_def)

definition c4_same :: dep_node where
  "c4_same = built_root ''1.0.0'' [(''p'', ''^1.2.0'')]
     [built ''p'' ''1.2.1'' ''^1.2.0'' [(''c'', ''^1.0.0'')] [built ''c'' ''1.0.1'' ''^1.0.0'' [] []]]"

definition c4_same_mixed :: dep_node where
  "c4_same_mixed = DepNode [] ''1.0.0'' [] [] [(''p'', ''^1.2.0'')] (dn_signature c4_same)
     [DepNode ''p'' ''1.2.1'' ''^1.2.0'' ''p@1.2.1'' [(''c'', ''^1.0.0'')]
        (getTreeSignature [built ''c'' ''1.0.1'' ''^1.0.0'' [] []])
        [built ''c'' ''1.0.0'' ''^1.0.0'' [] []]]"

lemma c4_same_relockTree: "relockTree literal_search [''p''] c4_prev c4_same = Inr c4_same_mixed"
  by (simp add: relock_eval c4_prev_def c4_same_def c4_same_mixed_def)

text \<open>C4, amended: a project module whose previous range is present, not empty and agrees
  with the current range in major and minor is re-examined whether or not the range string
  changed: its entry is the node that \<open>relock_one\<close> returns for the child, never the previous
  subtree as a whole. (A project module that is new, or whose range changed beyond patch
  level, is taken from the current tree as it is, like any other requirement.)\<close>

theorem relock_project_module_reexamined:
  assumes "relock_one (isProjectModule re_search projectFiles) prevTree curTree path = Inr relockNode"
    and "relock_getNode curTree path = Some curNode"
    and "relock_getNode prevTree path = Some prevNode"
    and "i < length (dn_requires curNode)"
    and "dn_requires curNode ! i = (key, curVer)"
    and "map_of (dn_requires prevNode) key = Some prevVer"
    and "prevVer \<noteq> []" and "\<not> notPatch curVer prevVer"
    and "isProjectModule re_search projectFiles key"
  shows "\<exists>curChild. relock_find (dn_dependencies curNode) key = Some curChild
      \<and> relock_one (isProjectModule re_search projectFiles) prevTree curTree (path @ [key])
           = Inr (dn_dependencies relockNode ! i)
      \<and> dn_name (dn_dependencies relockNode ! i) = dn_name curChild
      \<and> dn_version (dn_dependencies relockNode ! i) = dn_version curChild
      \<and> dn_semVer (dn_dependencies relockNode ! i) = dn_semVer curChild
      \<and> dn_tag (dn_dependencies relockNode ! i) = dn_tag curChild
      \<and> dn_requires (dn_dependencies relockNode ! i) = dn_requires curChild
      \<and> dn_signature (dn_dependencies relockNode ! i) = dn_signature curChild
      \<and> length (dn_dependencies (dn_dependencies relockNode ! i)) = length (dn_requires curChild)"
  using relock_reexamined[OF assms(1-8)] assms(9) by simp

theorem relock_project_module_reexamined_witness:
  "relock_one (isProjectModule literal_search [''p'']) c4_prev c4_same [] = Inr c4_same_mixed
   \<and> isProjectModule literal_search [''p''] ''p''
   \<and> map_of (dn_requires c4_prev) ''p'' = Some ''^1.2.0''
   \<and> dn_requires c4_same ! 0 = (''p'', ''^1.2.0'')
   \<and> (\<exists>curChild. relock_find (dn_dependencies c4_same) ''p'' = Some curChild
      \<and> relock_one (isProjectModule literal_search [''p'']) c4_prev c4_same ([] @ [''p''])
           = Inr (dn_dependencies c4_same_mixed ! 0)
      \<and> dn_name (dn_dependencies c4_same_mixed ! 0) = dn_name curChild
      \<and> dn_version (dn_dependencies c4_same_mixed ! 0) = dn_version curChild
      \<and> dn_semVer (dn_dependencies c4_same_mixed ! 0) = dn_semVer curChild
      \<and> dn_tag (dn_dependencies c4_same_mixed ! 0) = dn_tag curChild
      \<and> dn_requires (dn_dependencies c4_same_mixed ! 0) = dn_requires curChild
      \<and> dn_signature (dn_dependencies c4_same_mixed ! 0) = dn_signature curChild
      \<and> length (dn_dependencies (dn_dependencies c4_same_mixed ! 0)) = length (dn_requires curChild))"
proof -
  have r: "relock_one (isProjectModule literal_search [''p'']) c4_prev c4_same [] = Inr c4_same_mixed"
    using c4_same_relockTree by (simp add: relockTree_def)
  have pm: "isProjectModule literal_search [''p''] ''p''"
    by (simp add: isProjectModule_def)
  have p: "map_of (dn_requires c4_prev) ''p'' = Some ''^1.2.0''"
    by (simp add: c4_prev_def built_root_def)
  have c: "dn_requires c4_same ! 0 = (''p'', ''^1.2.0'')"
    by (simp add: c4_same_def built_root_def)
  have l: "0 < length (dn_requires c4_same)"
    by (simp add: c4_same_def built_root_def)
  from relock_project_module_reexamined[OF r _ _ l c p _ notPatch_same pm] r pm p c show ?thesis
    by simp
qed

section \<open>Facts about the tree builder\<close>

lemmas gdt_eval = generateDependencyTree_def buildPaths_def Let_def getLockPath_def
  getLockPath_loop.simps gdt_find_def gdt_getNode_def split_def object_truthy_def
  get_property_def object_prototype_functions_def

definition no_globals :: globals where
  "no_globals = \<lparr>g_versions = Map.empty, g_dependencyTrees = Map.empty\<rparr>"

subsection \<open>A requirement that no lock entry resolves\<close>

definition c5_root :: lock_entry where
  "c5_root = LockEntry ''1.0.0'' [] [(''a'', ''^1.0.0'')] []"

text \<open>No run raises the error for a missing module.\<close>

lemma gdt_never_missing:
  "gdt_one fuel root lockPaths path st \<noteq> Some (Inl (MissingRequiredModule m))"
  "gdt_requires fuel root lockPaths path reqs deps st \<noteq> Some (Inl (MissingRequiredModule m))"
  by (induction fuel root lockPaths path st and fuel root lockPaths path reqs deps st
      rule: gdt_one_gdt_requires.induct)
    (auto simp: Let_def object_truthy_def
          split: option.splits sum.splits if_splits prod.splits property.splits)

lemma generateDependencyTree_never_missing:
  "generateDependencyTree fuel g root \<noteq> Some (Inl (MissingRequiredModule m))"
  using gdt_never_missing(1)
  by (auto simp: generateDependencyTree_def Let_def split: option.splits sum.splits prod.splits)

text \<open>C5. Claim: a required name that the path-prefix search cannot resolve raises the
  fatal error. The source has the test (\<^verbatim>\<open>if (!match) throw new Error(...)\<close>), but \<^verbatim>\<open>find\<close>
  never returns a falsy value: for a name without lock path \<^verbatim>\<open>getLockPath\<close> returns the
  empty string and \<^verbatim>\<open>getNode\<close> falls back to the root. For the lock file with version
  \<open>1.0.0\<close> that requires \<open>a\<close> and has no dependencies, the tree has a node \<open>a@1.0.0\<close> made
  from the root entry, without dependencies (its expansion is taken for a circular
  reference to the root).\<close>

theorem missing_module_resolves_to_root:
  "map_option (map_sum id (\<lambda>(tree, g). dn_dependencies tree))
     (generateDependencyTree 3 no_globals c5_root)
   = Some (Inr [DepNode ''a'' ''1.0.0'' ''^1.0.0'' ''a@1.0.0'' [(''a'', ''^1.0.0'')]
                  (getTreeSignature []) []])"
  by (simp add: gdt_eval eval_nat_numeral c5_root_def no_globals_def)

section \<open>Properties of the relocked tree\<close>

subsection \<open>The nodes of the relocked tree\<close>




lemma nodes_of_trans: "m \<in> nodes_of n \<Longrightarrow> nodes_of m \<subseteq> nodes_of n"
proof (induction n)
  case (DepNode nm v sv t r sg ds)
  show ?case
  proof (cases "m = DepNode nm v sv t r sg ds")
    case True
    then show ?thesis by simp
  next
    case False
    with DepNode.prems obtain d where d: "d \<in> set ds" "m \<in> nodes_of d" by auto
    from DepNode.IH[OF d] d(1) show ?thesis by auto
  qed
qed








section \<open>Facts about the hoister\<close>

subsection \<open>The variants that are hoisted\<close>

definition variant_of :: "dep_node \<Rightarrow> string" where
  "variant_of d = dn_name d @ ''|'' @ dn_version d @ ''|'' @ dn_signature d"





subsection \<open>The entries of the placement tree\<close>





subsection \<open>Loops that may throw\<close>






subsection \<open>What a placement adds\<close>



subsection \<open>split on a variant\<close>







subsection \<open>The hoister returns on plain names\<close>











subsection \<open>The assembler is total on covered entries\<close>



subsection \<open>Three variants of one package\<close>

definition c7_lock :: lock_entry where
  "c7_lock = LockEntry ''1.0.0'' [(''name'', ''app'')] [(''x'', ''^1.0.0''), (''a'', ''^1.0.0'')]
     [(''x'', LockEntry ''1.0.0'' [] [] []),
      (''a'', LockEntry ''1.0.0'' [] [(''x'', ''^2.0.0''), (''c'', ''^1.0.0'')]
                [(''x'', LockEntry ''2.0.0'' [] [] [])]),
      (''c'', LockEntry ''1.0.0'' [] [(''x'', ''^3.0.0'')]
                [(''x'', LockEntry ''3.0.0'' [] [] [])])]"

definition c7_tree :: dep_node where
  "c7_tree = built_root ''1.0.0'' [(''x'', ''^1.0.0''), (''a'', ''^1.0.0'')]
     [built ''x'' ''1.0.0'' ''^1.0.0'' [] [],
      built ''a'' ''1.0.0'' ''^1.0.0'' [(''x'', ''^2.0.0''), (''c'', ''^1.0.0'')]
        [built ''x'' ''2.0.0'' ''^2.0.0'' [] [],
         built ''c'' ''1.0.0'' ''^1.0.0'' [(''x'', ''^3.0.0'')]
           [built ''x'' ''3.0.0'' ''^3.0.0'' [] []]]]"

lemma c7_built:
  "map_option (map_sum id fst) (generateDependencyTree 5 g c7_lock) = Some (Inr c7_tree)"
  by (simp add: gdt_eval eval_nat_numeral c7_lock_def c7_tree_def built_def built_root_def)

lemma c7_relocked: "relockTree literal_search [] c7_tree c7_tree = Inr c7_tree"
  by (simp add: relock_eval c7_tree_def)

definition placed :: "dep_node \<Rightarrow> (string \<times> pnode) list \<Rightarrow> pnode" where
  "placed d deps = PNode (dn_name d) (dn_version d) (variant_of d) deps"

definition c7_x1 :: dep_node where "c7_x1 = built ''x'' ''1.0.0'' ''^1.0.0'' [] []"
definition c7_x2 :: dep_node where "c7_x2 = built ''x'' ''2.0.0'' ''^2.0.0'' [] []"
definition c7_x3 :: dep_node where "c7_x3 = built ''x'' ''3.0.0'' ''^3.0.0'' [] []"
definition c7_c :: dep_node where "c7_c = built ''c'' ''1.0.0'' ''^1.0.0'' [(''x'', ''^3.0.0'')] [c7_x3]"
definition c7_a :: dep_node where
  "c7_a = built ''a'' ''1.0.0'' ''^1.0.0'' [(''x'', ''^2.0.0''), (''c'', ''^1.0.0'')] [c7_x2, c7_c]"

definition c7_before :: pnode where
  "c7_before = PNode [] ''1.0.0'' []
     [(''a'', placed c7_a [(''x'', placed c7_x2 [])]), (''x'', placed c7_x1 []), (''c'', placed c7_c [])]"

definition c7_after :: pnode where
  "c7_after = PNode [] ''1.0.0'' []
     [(''a'', placed c7_a [(''x'', placed c7_x3 [])]), (''x'', placed c7_x1 []), (''c'', placed c7_c [])]"

lemmas c7_defs = c7_tree_def c7_before_def c7_after_def c7_a_def c7_c_def c7_x1_def c7_x2_def c7_x3_def
  placed_def variant_of_def built_def built_root_def

lemmas flatten_eval = flattenTree_def hoist_def hoistOne_def for_each_def add_def add_loop.simps
  insert_node_def insert_variant_def get_property_def object_prototype_functions_def has_variant_def
  register_def Let_def sortModules_def compare_def split_def

lemma c7_flat: "flattenTree c7_tree = Inr c7_after"
  by (simp add: flatten_eval c7_defs)

lemma c7_add: "add c7_before ''a|c|x'' (variant_of c7_x3) = Inr c7_after"
  by (simp add: flatten_eval c7_defs)

lemma c7_relock:
  "map_option (map_sum id (\<lambda>(lockFile, g). lf_dependencies lockFile))
     (relock 5 literal_search [] no_globals c7_lock c7_lock)
   = Some (Inr [(''a'', LockEntry ''1.0.0'' [] [(''x'', ''^2.0.0''), (''c'', ''^1.0.0'')]
                          [(''x'', LockEntry ''3.0.0'' [] [] [])]),
                (''c'', LockEntry ''1.0.0'' [] [(''x'', ''^3.0.0'')] []),
                (''x'', LockEntry ''1.0.0'' [] [] [])])"
  by (simp add: relock_def gdt_eval eval_nat_numeral c7_lock_def no_globals_def
        relock_eval flatten_eval blf_one.simps buildLockFile_def delete_dependencies_def)

text \<open>C7. Claim: placing a variant never removes or overwrites a different variant that
  occupies a name slot; insertion only goes into a free slot. In the source, when the slot
  holds a different variant and the current placement node has no child for the next
  path segment ("no where to go, add it"), \<^verbatim>\<open>insert\<close> assigns the occupied slot. In
  \<open>c7_before\<close> the slot \<open>x\<close> under \<open>a\<close> holds \<open>x@2.0.0\<close>; placing \<open>x@3.0.0\<close> for the path
  \<open>a|c|x\<close> finds \<open>x@1.0.0\<close> at the root, descends to \<open>a\<close>, finds \<open>x@2.0.0\<close>, finds no
  child \<open>c\<close> under \<open>a\<close> (it was hoisted to the root) and replaces \<open>x@2.0.0\<close>. This is the
  last step of \<open>flattenTree\<close> on the tree of \<open>c7_lock\<close>, and \<open>relock\<close> of that lock file
  against itself yields a lock file in which \<open>a\<close> gets \<open>x@3.0.0\<close> and \<open>c\<close> has no nested \<open>x\<close>.\<close>

theorem hoist_overwrites_different_variant:
  "add c7_before ''a|c|x'' (variant_of c7_x3) = Inr c7_after
   \<and> variant_of c7_x2 \<noteq> variant_of c7_x3
   \<and> flattenTree c7_tree = Inr c7_after
   \<and> map_option (map_sum id fst) (generateDependencyTree 5 no_globals c7_lock) = Some (Inr c7_tree)
   \<and> map_option (map_sum id (\<lambda>(lockFile, g). lf_dependencies lockFile))
        (relock 5 literal_search [] no_globals c7_lock c7_lock)
      = Some (Inr [(''a'', LockEntry ''1.0.0'' [] [(''x'', ''^2.0.0''), (''c'', ''^1.0.0'')]
                             [(''x'', LockEntry ''3.0.0'' [] [] [])]),
                   (''c'', LockEntry ''1.0.0'' [] [(''x'', ''^3.0.0'')] []),
                   (''x'', LockEntry ''1.0.0'' [] [] [])])"
  using c7_add c7_flat c7_built c7_relock
  by (simp add: variant_of_def c7_x2_def c7_x3_def built_def)

subsection \<open>Reading the result of a build\<close>

lemma built_result:
  "map_option (map_sum id fst) X = Some (Inr t) \<Longrightarrow> \<exists>g. X = Some (Inr (t, g))"
  by (cases X) (auto simp: map_sum_def split: sum.splits)

lemma built_dependencies:
  "map_option (map_sum id fst) X = Some (Inr t)
   \<Longrightarrow> map_option (map_sum id (dn_dependencies \<circ> fst)) X = Some (Inr (dn_dependencies t))"
  by (cases X) (auto simp: map_sum_def split: sum.splits)

section \<open>Termination of the tree builder\<close>

subsection \<open>An empty name never leaves the lookup loop\<close>

text \<open>The do-while loop of \<^verbatim>\<open>getLockPath\<close> ends when \<^verbatim>\<open>found\<close> is a non-empty string or
  when the search path is exhausted without a match. Looking up the empty name from the
  empty search path matches the lock path of the root, which is the empty string, so neither
  happens: the loop does not return. The builder reaches this state for a requirement whose
  name is the empty string, in an entry that is not the root.\<close>

lemma getLockPath_loop_Some:
  assumes "getLockPath_loop lockPaths searchPath name = Some found"
  shows "\<not> ([] \<in> set lockPaths \<and> searchPath = [] \<and> name = [])"
  by (rule getLockPath_loop.raw_induct[where P = "\<lambda>lp sp n y. \<not> ([] \<in> set lp \<and> sp = [] \<and> n = [])", OF _ assms])
     (auto simp: Let_def split: if_splits)

lemma getLockPath_loop_spins:
  "[] \<in> set lockPaths \<Longrightarrow> getLockPath_loop lockPaths [] [] = None"
  using getLockPath_loop_Some[of lockPaths "[]" "[]"]
  by (cases "getLockPath_loop lockPaths [] []") auto

text \<open>The lock file \<open>c6_spin\<close>: the root requires \<open>a\<close>, and \<open>a\<close> has a requirement whose
  name is the empty string.\<close>

definition c6_spin :: lock_entry where
  "c6_spin = LockEntry ''1.0.0'' [] [(''a'', ''^1.0.0'')]
     [(''a'', LockEntry ''1.0.0'' [] [('''', ''^1.0.0'')] [])]"

lemma c6_spin_paths: "buildPaths c6_spin = ['''', ''a'']"
  by (simp add: buildPaths_def c6_spin_def)

lemma c6_spin_lookup: "getLockPath_loop ['''', ''a''] [''a''] [] = None"
  by (subst getLockPath_loop.simps) (simp add: Let_def getLockPath_loop_spins)

lemma c6_spin_a: "getLockPath_loop ['''', ''a''] [] ''a'' = Some ''a''"
  by (subst getLockPath_loop.simps) (simp add: Let_def)

text \<open>C6. Claim: for every input lock file \<open>generateDependencyTree\<close> terminates. On
  \<open>c6_spin\<close> it does not return, whatever the fuel: expanding \<open>a\<close>, the lookup of the
  requirement named by the empty string walks the search path back to the root, matches
  the lock path of the root, which leaves \<^verbatim>\<open>found\<close> falsy, and repeats that step for ever.\<close>

theorem empty_name_never_returns:
  "\<forall>fuel. generateDependencyTree fuel no_globals c6_spin = None"
proof
  fix fuel
  let ?lp = "['''', ''a'']"
  have req: "gdt_requires n c6_spin ?lp [''a''] [('''', ''^1.0.0'')] deps st = None" for n deps st
    by (simp add: getLockPath_def c6_spin_lookup)
  have find: "gdt_find c6_spin ?lp ''a'' [] = Some (LockEntry ''1.0.0'' [] [('''', ''^1.0.0'')] [])"
    by (simp add: gdt_find_def getLockPath_def c6_spin_a gdt_getNode_def split_def c6_spin_def)
  have one: "gdt_one n c6_spin ?lp [''a''] st = None"
    if "stack st = ['''']" and "processed st = Map.empty" for n st
  proof (cases n)
    case 0
    then show ?thesis by simp
  next
    case (Suc m)
    with that show ?thesis
      by (simp add: Let_def getLockPath_def c6_spin_a c6_spin_lookup find get_property_def
            object_prototype_functions_def)
  qed
  have top: "gdt_requires n c6_spin ?lp [] [(''a'', ''^1.0.0'')] [] st = None"
    if "stack st = ['''']" and "processed st = Map.empty" for n st
    using that by (simp add: Let_def getLockPath_def c6_spin_a find object_truthy_def split_def one)
  have root: "gdt_find c6_spin ?lp [] [] = Some c6_spin" by (simp add: gdt_find_def)
  have reqs: "le_requires c6_spin = [(''a'', ''^1.0.0'')]" by (simp add: c6_spin_def)
  show "generateDependencyTree fuel no_globals c6_spin = None"
  proof (cases fuel)
    case 0
    then show ?thesis by (simp add: generateDependencyTree_def Let_def)
  next
    case (Suc n)
    then show ?thesis
      by (simp add: generateDependencyTree_def c6_spin_paths Let_def getLockPath_def root reqs
            get_property_def object_prototype_functions_def top no_globals_def
            del: gdt_requires.simps)
  qed
qed

subsection \<open>A dependency named like a member of \<^verbatim>\<open>Object.prototype\<close>\<close>

definition c6_constructor :: lock_entry where
  "c6_constructor = LockEntry ''1.0.0'' [] [(''constructor'', ''^1.0.0'')]
     [(''constructor'', LockEntry ''1.0.0'' [] [] [])]"

text \<open>The lock path \<^verbatim>\<open>constructor\<close> is found in the empty memo table: the build ends with a
  TypeError.\<close>

lemma prototype_name_aborts_build:
  "generateDependencyTree 3 g c6_constructor = Some (Inl TypeError)"
  by (simp add: gdt_eval eval_nat_numeral c6_constructor_def)

subsection \<open>A circular requirement\<close>

text \<open>In \<open>c6_lock\<close> the modules \<open>a\<close> and \<open>b\<close> require each other, and each of them also
  requires \<open>c\<close>, after the other one. In the tree, \<open>b\<close> under \<open>a\<close> holds \<open>a\<close> without
  dependencies (the lock path of \<open>a\<close> is on the stack) and then \<open>c\<close>.\<close>

definition c6_lock :: lock_entry where
  "c6_lock = LockEntry ''1.0.0'' [] [(''a'', ''^1.0.0'')]
     [(''a'', LockEntry ''1.0.0'' [] [(''b'', ''^1.0.0''), (''c'', ''^1.0.0'')] []),
      (''b'', LockEntry ''1.0.0'' [] [(''a'', ''^1.0.0''), (''c'', ''^1.0.0'')] []),
      (''c'', LockEntry ''1.0.0'' [] [] [])]"

definition c6_tree :: dep_node where
  "c6_tree = built_root ''1.0.0'' [(''a'', ''^1.0.0'')]
     [built ''a'' ''1.0.0'' ''^1.0.0'' [(''b'', ''^1.0.0''), (''c'', ''^1.0.0'')]
        [built ''b'' ''1.0.0'' ''^1.0.0'' [(''a'', ''^1.0.0''), (''c'', ''^1.0.0'')]
           [built ''a'' ''1.0.0'' ''^1.0.0'' [(''b'', ''^1.0.0''), (''c'', ''^1.0.0'')] [],
            built ''c'' ''1.0.0'' ''^1.0.0'' [] []],
         built ''c'' ''1.0.0'' ''^1.0.0'' [] []]]"

lemma c6_built:
  "map_option (map_sum id fst) (generateDependencyTree 5 g c6_lock) = Some (Inr c6_tree)"
  by (simp add: gdt_eval eval_nat_numeral c6_lock_def c6_tree_def built_def built_root_def)

text \<open>C6, amended. For every lock file whose required names and dependency names are plain
  (not empty, without \<open>|\<close>, not the name of a member of \<^verbatim>\<open>Object.prototype\<close>), circular or not,
  \<open>generateDependencyTree\<close> returns a tree, and no error, as soon as the fuel, which bounds the
  depth of the recursion of \<^verbatim>\<open>one\<close>, exceeds the number of lock paths of the file. The tree
  covers every requirement: the root has one node for each of its requirements, in order,
  and every other node has either no dependencies (its expansion was cut, or it requires
  nothing) or one node for each of its requirements, in order.

  A call of \<^verbatim>\<open>one\<close> whose lock path is on the stack returns the empty dependency list and
  leaves the stack, the memo table and the global tables as they are. A requirement whose
  lock path is on the stack gets a node without dependencies, and the loop over the
  requirements goes on with the remaining ones.\<close>

theorem well_formed_build_terminates:
  assumes "wf_lock root" and "length (buildPaths root) < fuel"
  shows "(\<exists>tree g'. generateDependencyTree fuel g root = Some (Inr (tree, g'))
            \<and> map requirement_of (dn_dependencies tree) = le_requires root
            \<and> (\<forall>n \<in> below (dn_dependencies tree).
                  dn_dependencies n = []
                  \<or> map requirement_of (dn_dependencies n) = dn_requires n))
       \<and> (\<forall>n lockPaths path st lp.
             getLockPath lockPaths (butlast path) (if path = [] then [] else last path) = Some lp
             \<and> lp \<in> set (stack st)
             \<longrightarrow> gdt_one (Suc n) root lockPaths path st = Some (Inr ([], st)))
       \<and> (\<forall>n lockPaths path name semVer rest deps st realPath match.
             getLockPath lockPaths path name = Some realPath
             \<and> gdt_find root lockPaths name path = Some match
             \<and> realPath \<in> set lockPaths \<and> realPath \<in> set (stack st)
             \<longrightarrow> gdt_requires (Suc n) root lockPaths path ((name, semVer) # rest) deps st
                 = gdt_requires (Suc n) root lockPaths path rest
                     (deps @ [DepNode name (le_version match) semVer
                                (name @ ''@'' @ le_version match) (le_requires match)
                                (getTreeSignature []) []])
                     (st\<lparr>versions := (versions st)
                            (name @ ''@'' @ le_version match \<mapsto> delete_dependencies match),
                         dependencyTrees := (dependencyTrees st)(getTreeSignature [] \<mapsto> [])\<rparr>))"
proof -
  from generateDependencyTree_returns[OF assms, of g] obtain tree g' where
    r: "generateDependencyTree fuel g root = Some (Inr (tree, g'))" by blast
  from generateDependencyTree_covers[OF assms(1) r]
  have c: "map requirement_of (dn_dependencies tree) = le_requires root"
    "\<forall>n \<in> below (dn_dependencies tree).
        dn_dependencies n = [] \<or> map requirement_of (dn_dependencies n) = dn_requires n"
    by (simp_all add: all_expanded_def expanded_def)
  have cut: "gdt_one (Suc n) root lockPaths path st = Some (Inr ([], st))"
    if "getLockPath lockPaths (butlast path) (if path = [] then [] else last path) = Some lp"
      and "lp \<in> set (stack st)" for n lockPaths path st lp
    using that by (simp add: Let_def)
  have step: "gdt_requires (Suc n) root lockPaths path ((name, semVer) # rest) deps st
                 = gdt_requires (Suc n) root lockPaths path rest
                     (deps @ [DepNode name (le_version match) semVer
                                (name @ ''@'' @ le_version match) (le_requires match)
                                (getTreeSignature []) []])
                     (st\<lparr>versions := (versions st)
                            (name @ ''@'' @ le_version match \<mapsto> delete_dependencies match),
                         dependencyTrees := (dependencyTrees st)(getTreeSignature [] \<mapsto> [])\<rparr>)"
    if rp: "getLockPath lockPaths path name = Some realPath"
      and m: "gdt_find root lockPaths name path = Some match"
      and inp: "realPath \<in> set lockPaths" and ins: "realPath \<in> set (stack st)"
    for n lockPaths path name semVer rest deps st realPath match
  proof -
    let ?st1 = "st\<lparr>versions := (versions st)
                   (name @ ''@'' @ le_version match \<mapsto> delete_dependencies match)\<rparr>"
    let ?path = "split CHR ''|'' realPath"
    have "?path \<noteq> []" by (rule split_not_Nil)
    with getLockPath_split[OF inp]
    have "getLockPath lockPaths (butlast ?path) (if ?path = [] then [] else last ?path)
            = Some realPath" by simp
    moreover from ins have "realPath \<in> set (stack ?st1)" by simp
    ultimately have "gdt_one (Suc n) root lockPaths ?path ?st1 = Some (Inr ([], ?st1))"
      by (rule cut)
    with rp m show ?thesis
      by (simp add: Let_def object_truthy_def del: gdt_one.simps)
  qed
  from r c cut step show ?thesis by blast
qed

theorem well_formed_build_terminates_witness:
  "wf_lock c6_lock \<and> length (buildPaths c6_lock) < 5
   \<and> (\<exists>g'. generateDependencyTree 5 no_globals c6_lock = Some (Inr (c6_tree, g'))
          \<and> map requirement_of (dn_dependencies c6_tree) = le_requires c6_lock
          \<and> (\<forall>n \<in> below (dn_dependencies c6_tree).
                dn_dependencies n = []
                \<or> map requirement_of (dn_dependencies n) = dn_requires n))
   \<and> gdt_one (Suc 0) c6_lock (buildPaths c6_lock) [''a''] \<lparr>stack = ['''', ''a'', ''b''],
         processed = Map.empty, versions = Map.empty, dependencyTrees = Map.empty\<rparr>
       = Some (Inr ([], \<lparr>stack = ['''', ''a'', ''b''],
         processed = Map.empty, versions = Map.empty, dependencyTrees = Map.empty\<rparr>))"
proof -
  have w: "wf_lock c6_lock"
    by (simp add: wf_lock_def plain_name_def object_prototype_functions_def c6_lock_def)
  have l: "length (buildPaths c6_lock) < 5" by (simp add: buildPaths_def c6_lock_def)
  note t = well_formed_build_terminates[OF w l, of no_globals]
  from built_result[OF c6_built[of no_globals]] obtain g' where
    b: "generateDependencyTree 5 no_globals c6_lock = Some (Inr (c6_tree, g'))" by blast
  with t have c: "map requirement_of (dn_dependencies c6_tree) = le_requires c6_lock"
    "\<forall>n \<in> below (dn_dependencies c6_tree).
        dn_dependencies n = [] \<or> map requirement_of (dn_dependencies n) = dn_requires n"
    by auto
  have lp: "getLockPath (buildPaths c6_lock) (butlast [''a''])
              (if [''a''] = [] then [] else last [''a'']) = Some ''a''"
    by (simp add: buildPaths_def c6_lock_def getLockPath_def getLockPath_loop.simps Let_def)
  let ?st = "\<lparr>stack = ['''', ''a'', ''b''], processed = Map.empty :: string \<rightharpoonup> dep_node list,
               versions = Map.empty, dependencyTrees = Map.empty\<rparr>"
  from t have "\<forall>n lockPaths path st lp.
             getLockPath lockPaths (butlast path) (if path = [] then [] else last path) = Some lp
             \<and> lp \<in> set (stack st)
             \<longrightarrow> gdt_one (Suc n) c6_lock lockPaths path st = Some (Inr ([], st))" by blast
  from this[rule_format, of "buildPaths c6_lock" "[''a'']" "''a''" ?st 0] lp
  have cut: "gdt_one (Suc 0) c6_lock (buildPaths c6_lock) [''a''] ?st = Some (Inr ([], ?st))"
    by simp
  from w l b c cut show ?thesis by blast
qed

section \<open>Facts about the signature engine\<close>

subsection \<open>Evaluating MD5\<close>

fun len_acc :: "'a list \<Rightarrow> nat \<Rightarrow> nat" where
  "len_acc [] n = n"
| "len_acc (x # xs) n = len_acc xs (n + 1)"

lemma len_acc_length: "len_acc xs n = length xs + n"
  by (induction xs arbitrary: n) auto

lemma le_bytes_4:
  "le_bytes 4 w = [w mod 256, w div 256 mod 256, w div 256 div 256 mod 256,
                   w div 256 div 256 div 256 mod 256]"
proof -
  have h: "(4::nat) = Suc (Suc (Suc (Suc 0)))" by simp
  show ?thesis by (simp only: h le_bytes.simps)
qed

lemma le_bytes_8:
  "le_bytes 8 w = [w mod 256, w div 256 mod 256, w div 256 div 256 mod 256,
                   w div 256 div 256 div 256 mod 256,
                   w div 256 div 256 div 256 div 256 mod 256,
                   w div 256 div 256 div 256 div 256 div 256 mod 256,
                   w div 256 div 256 div 256 div 256 div 256 div 256 mod 256,
                   w div 256 div 256 div 256 div 256 div 256 div 256 div 256 mod 256]"
proof -
  have h: "(8::nat) = Suc (Suc (Suc (Suc (Suc (Suc (Suc (Suc 0)))))))" by simp
  show ?thesis by (simp only: h le_bytes.simps)
qed

lemma md5_pad_eval:
  "md5_pad msg = msg @ [128] @ replicate ((119 - len_acc msg 0 mod 64) mod 64) 0
                 @ le_bytes 8 (8 * len_acc msg 0)"
  by (simp add: md5_pad_def len_acc_length)

lemma replicate_numeral_eval: "replicate (numeral k) x = x # replicate (pred_numeral k) x"
  by (simp add: numeral_eq_Suc)

lemma foldl_upt_eval:
  "foldl f s [i..<j] = (if i < j then foldl f (f s i) [Suc i..<j] else s)"
  by (simp add: upt_rec[of i j])

lemmas md5_eval = md5_hex_def md5_pad_eval le_bytes_8 le_bytes_4 replicate_numeral_eval
  md5_rounds_def foldl_upt_eval md5_f_def md5_g_def md5_S_def md5_K_def add32_def not32_def
  rotl32_def hex_byte_def hex_digit_def

lemmas stringify_eval = stringify_def json_string_def json_escape_def stringify_requires_def

lemma signature_of_empty_list: "getTreeSignature [] = ''d751713988987e9331980363e24189ce''"
  by (simp add: getTreeSignature_def stringify_def md5_eval)

text \<open>The node of \<open>x@1.2.5\<close>, a leaf, reached under the range \<open>semVer\<close>.\<close>

definition c8_x :: "string \<Rightarrow> dep_node" where
  "c8_x semVer = built ''x'' ''1.2.5'' semVer [] []"

lemma signature_of_x_120:
  "getTreeSignature [c8_x ''^1.2.0''] = ''02ecae6bd8012790f67f068e50e89323''"
proof -
  have s: "stringify [c8_x ''^1.2.0''] =
      [CHR ''['', CHR ''{'', CHR 0x22] @ ''name'' @ [CHR 0x22] @ '':'' @ [CHR 0x22] @ ''x''
      @ [CHR 0x22] @ '','' @ [CHR 0x22] @ ''version'' @ [CHR 0x22] @ '':'' @ [CHR 0x22]
      @ ''1.2.5'' @ [CHR 0x22] @ '','' @ [CHR 0x22] @ ''semVer'' @ [CHR 0x22] @ '':''
      @ [CHR 0x22] @ ''^1.2.0'' @ [CHR 0x22] @ '','' @ [CHR 0x22] @ ''tag'' @ [CHR 0x22]
      @ '':'' @ [CHR 0x22] @ ''x@1.2.5'' @ [CHR 0x22] @ '','' @ [CHR 0x22] @ ''requires''
      @ [CHR 0x22] @ '':{},'' @ [CHR 0x22] @ ''signature'' @ [CHR 0x22] @ '':'' @ [CHR 0x22]
      @ ''d751713988987e9331980363e24189ce'' @ [CHR 0x22] @ '','' @ [CHR 0x22]
      @ ''dependencies'' @ [CHR 0x22] @ '':[]}]''"
    by (simp add: stringify_eval c8_x_def built_def signature_of_empty_list)
  show ?thesis
    unfolding getTreeSignature_def s by (simp add: md5_eval)
qed

lemma signature_of_x_125:
  "getTreeSignature [c8_x ''^1.2.5''] = ''2d551574238a994f54b8d4b16d762c91''"
proof -
  have s: "stringify [c8_x ''^1.2.5''] =
      [CHR ''['', CHR ''{'', CHR 0x22] @ ''name'' @ [CHR 0x22] @ '':'' @ [CHR 0x22] @ ''x''
      @ [CHR 0x22] @ '','' @ [CHR 0x22] @ ''version'' @ [CHR 0x22] @ '':'' @ [CHR 0x22]
      @ ''1.2.5'' @ [CHR 0x22] @ '','' @ [CHR 0x22] @ ''semVer'' @ [CHR 0x22] @ '':''
      @ [CHR 0x22] @ ''^1.2.5'' @ [CHR 0x22] @ '','' @ [CHR 0x22] @ ''tag'' @ [CHR 0x22]
      @ '':'' @ [CHR 0x22] @ ''x@1.2.5'' @ [CHR 0x22] @ '','' @ [CHR 0x22] @ ''requires''
      @ [CHR 0x22] @ '':{},'' @ [CHR 0x22] @ ''signature'' @ [CHR 0x22] @ '':'' @ [CHR 0x22]
      @ ''d751713988987e9331980363e24189ce'' @ [CHR 0x22] @ '','' @ [CHR 0x22]
      @ ''dependencies'' @ [CHR 0x22] @ '':[]}]''"
    by (simp add: stringify_eval c8_x_def built_def signature_of_empty_list)
  show ?thesis
    unfolding getTreeSignature_def s by (simp add: md5_eval)
qed

subsection \<open>Two lock files that resolve one package under different ranges\<close>

definition c8_prev :: lock_entry where
  "c8_prev = LockEntry ''1.0.0'' [] [(''p'', ''^1.0.0'')]
     [(''p'', LockEntry ''1.0.0'' [] [(''x'', ''^1.2.0'')] []),
      (''x'', LockEntry ''1.2.5'' [] [] [])]"

definition c8_cur :: lock_entry where
  "c8_cur = LockEntry ''1.0.0'' [] [(''p'', ''^1.0.0'')]
     [(''p'', LockEntry ''1.0.0'' [] [(''x'', ''^1.2.5'')] []),
      (''x'', LockEntry ''1.2.5'' [] [] [])]"

definition c8_A :: dep_node where
  "c8_A = built ''p'' ''1.0.0'' ''^1.0.0'' [(''x'', ''^1.2.0'')] [c8_x ''^1.2.0'']"

definition c8_B :: dep_node where
  "c8_B = built ''p'' ''1.0.0'' ''^1.0.0'' [(''x'', ''^1.2.5'')] [c8_x ''^1.2.5'']"

lemma c8_built_prev:
  "map_option (map_sum id fst) (generateDependencyTree 3 g c8_prev)
   = Some (Inr (built_root ''1.0.0'' [(''p'', ''^1.0.0'')] [c8_A]))"
  by (simp add: gdt_eval eval_nat_numeral c8_prev_def c8_A_def c8_x_def built_def built_root_def)

lemma c8_built_cur:
  "map_option (map_sum id fst) (generateDependencyTree 3 g c8_cur)
   = Some (Inr (built_root ''1.0.0'' [(''p'', ''^1.0.0'')] [c8_B]))"
  by (simp add: gdt_eval eval_nat_numeral c8_cur_def c8_B_def c8_x_def built_def built_root_def)

text \<open>The hypothesis of the claim, in its words: two subtrees have the same content when
  their names are equal, their versions are equal, and their children agree pairwise in
  signature and, recursively, in content.\<close>

fun same_content :: "dep_node \<Rightarrow> dep_node \<Rightarrow> bool" where
  "same_content (DepNode n v sv t r sg ds) (DepNode n' v' sv' t' r' sg' ds') =
     (n = n' \<and> v = v'
      \<and> list_all2 (\<lambda>a b. dn_signature a = dn_signature b \<and> same_content a b) ds ds')"

text \<open>C8. Claim: subtrees with identical name, identical version and recursively identical
  child signatures have equal signatures. The signature of a node is the MD5 digest of
  \<^verbatim>\<open>JSON.stringify(dependencies)\<close>, and the serialised children carry their \<^verbatim>\<open>semVer\<close>, their
  \<^verbatim>\<open>tag\<close> and their \<^verbatim>\<open>requires\<close> as well. In \<open>c8_prev\<close> the module \<open>p\<close> requires \<open>x\<close> under
  \<open>^1.2.0\<close>, in \<open>c8_cur\<close> under \<open>^1.2.5\<close>; both resolve \<open>x\<close> to 1.2.5. The two nodes built
  for \<open>p\<close> have the same name and version, and their only children have the same name,
  version and signature (that of the empty list) and no children, yet the signatures of
  the two nodes differ.\<close>

theorem same_children_signatures_differ:
  "map_option (map_sum id (dn_dependencies \<circ> fst)) (generateDependencyTree 3 no_globals c8_prev)
     = Some (Inr [c8_A])
   \<and> map_option (map_sum id (dn_dependencies \<circ> fst)) (generateDependencyTree 3 no_globals c8_cur)
     = Some (Inr [c8_B])
   \<and> same_content c8_A c8_B
   \<and> dn_signature c8_A = ''02ecae6bd8012790f67f068e50e89323''
   \<and> dn_signature c8_B = ''2d551574238a994f54b8d4b16d762c91''"
proof -
  have a: "map_option (map_sum id (dn_dependencies \<circ> fst)) (generateDependencyTree 3 no_globals c8_prev)
     = Some (Inr [c8_A])"
    using built_dependencies[OF c8_built_prev[of no_globals]] by (simp add: built_root_def)
  have b: "map_option (map_sum id (dn_dependencies \<circ> fst)) (generateDependencyTree 3 no_globals c8_cur)
     = Some (Inr [c8_B])"
    using built_dependencies[OF c8_built_cur[of no_globals]] by (simp add: built_root_def)
  have c: "same_content c8_A c8_B"
    by (simp add: c8_A_def c8_B_def c8_x_def built_def)
  have d: "dn_signature c8_A = ''02ecae6bd8012790f67f068e50e89323''"
    by (simp add: c8_A_def built_def signature_of_x_120)
  have e: "dn_signature c8_B = ''2d551574238a994f54b8d4b16d762c91''"
    by (simp add: c8_B_def built_def signature_of_x_125)
  from a b c d e show ?thesis by blast
qed

text \<open>C8, amended. Every node of a tree that \<open>generateDependencyTree\<close> returns carries as
  its signature the MD5 digest of the serialisation of its dependency list, a function of
  that list alone. Two nodes, of one build or of two builds, whose dependency lists are
  identical (names, versions, ranges, tags, requirements and signatures of all
  descendants) have equal signatures.\<close>

theorem signature_determined_by_dependencies:
  assumes "generateDependencyTree fuel g root = Some (Inr (tree, g'))"
    and "generateDependencyTree fuel' h root' = Some (Inr (tree', h'))"
    and "A \<in> nodes_of tree" and "B \<in> nodes_of tree'"
    and "dn_dependencies A = dn_dependencies B"
  shows "dn_signature A = dn_signature B
       \<and> dn_signature A = md5_hex (stringify (dn_dependencies A))"
proof -
  have s: "dn_signature n = getTreeSignature (dn_dependencies n)"
    if "generateDependencyTree k i r = Some (Inr (t, i'))" "n \<in> nodes_of t" for k i r t i' n
  proof (cases "n = t")
    case True
    with generateDependencyTree_builds(2)[OF that(1)] show ?thesis by simp
  next
    case False
    with that(2) have "n \<in> below (dn_dependencies t)"
      by (subst (asm) nodes_of_eq) simp
    with generateDependencyTree_builds(1)[OF that(1)] show ?thesis
      by (simp add: list_ok_def node_ok_def)
  qed
  from s[OF assms(1,3)] s[OF assms(2,4)] assms(5) show ?thesis
    by (simp add: getTreeSignature_def)
qed

theorem signature_determined_by_dependencies_witness:
  "\<exists>tree g' tree' h'.
     generateDependencyTree 3 no_globals c8_prev = Some (Inr (tree, g'))
     \<and> generateDependencyTree 3 no_globals c8_cur = Some (Inr (tree', h'))
     \<and> c8_x ''^1.2.0'' \<in> nodes_of tree \<and> c8_x ''^1.2.5'' \<in> nodes_of tree'
     \<and> dn_dependencies (c8_x ''^1.2.0'') = dn_dependencies (c8_x ''^1.2.5'')
     \<and> dn_signature (c8_x ''^1.2.0'') = dn_signature (c8_x ''^1.2.5'')
     \<and> dn_signature (c8_x ''^1.2.0'') = md5_hex (stringify (dn_dependencies (c8_x ''^1.2.0'')))"
proof -
  from built_result[OF c8_built_prev[of no_globals]] obtain g' where
    p: "generateDependencyTree 3 no_globals c8_prev
          = Some (Inr (built_root ''1.0.0'' [(''p'', ''^1.0.0'')] [c8_A], g'))"
    by blast
  from built_result[OF c8_built_cur[of no_globals]] obtain h' where
    c: "generateDependencyTree 3 no_globals c8_cur
          = Some (Inr (built_root ''1.0.0'' [(''p'', ''^1.0.0'')] [c8_B], h'))"
    by blast
  have a: "c8_x ''^1.2.0'' \<in> nodes_of (built_root ''1.0.0'' [(''p'', ''^1.0.0'')] [c8_A])"
    by (simp add: built_root_def c8_A_def built_def c8_x_def)
  have b: "c8_x ''^1.2.5'' \<in> nodes_of (built_root ''1.0.0'' [(''p'', ''^1.0.0'')] [c8_B])"
    by (simp add: built_root_def c8_B_def built_def c8_x_def)
  have d: "dn_dependencies (c8_x ''^1.2.0'') = dn_dependencies (c8_x ''^1.2.5'')"
    by (simp add: c8_x_def built_def)
  from signature_determined_by_dependencies[OF p c a b d] p c a b d show ?thesis
    by blast
qed

section \<open>The tables of the tree builder\<close>

subsection \<open>The signature index across two builds\<close>

definition c9_prev :: lock_entry where
  "c9_prev = LockEntry ''1.0.0'' [] [(''x'', ''^1.2.0'')] [(''x'', LockEntry ''1.2.5'' [] [] [])]"

definition c9_cur :: lock_entry where
  "c9_cur = LockEntry ''1.0.0'' [] [] []"

lemma signature_of_x_120_literal:
  "getTreeSignature [DepNode ''x'' ''1.2.5'' ''^1.2.0'' ''x@1.2.5'' [] ''d751713988987e9331980363e24189ce'' []]
   = ''02ecae6bd8012790f67f068e50e89323''"
  using signature_of_x_120 by (simp add: c8_x_def built_def signature_of_empty_list)

text \<open>C9. Claim: the memo table \<^verbatim>\<open>processed\<close> and the signature index \<^verbatim>\<open>dependencyTrees\<close>
  are scoped to one invocation of \<open>generateDependencyTree\<close> and are not shared between the
  build of the previous lock file and the build of the current one. \<^verbatim>\<open>processed\<close> is a
  local of the function; \<^verbatim>\<open>dependencyTrees\<close> is a variable of the module, next to
  \<^verbatim>\<open>versions\<close>, that every build writes to and nothing resets. Building \<open>c9_prev\<close> from
  empty tables and then \<open>c9_cur\<close>, which has no dependencies, from the tables the first
  build left: the index that the second build starts from and the index that it leaves
  both hold the dependency list of the first tree under its signature.\<close>

theorem signature_index_outlives_build:
  "(case generateDependencyTree 2 no_globals c9_prev of
      Some (Inr (prevTree, g1)) \<Rightarrow>
        (case generateDependencyTree 2 g1 c9_cur of
           Some (Inr (curTree, g2)) \<Rightarrow>
             dn_dependencies prevTree = [c8_x ''^1.2.0'']
             \<and> dn_dependencies curTree = []
             \<and> g_dependencyTrees no_globals (dn_signature prevTree) = None
             \<and> g_dependencyTrees g1 (dn_signature prevTree) = Some [c8_x ''^1.2.0'']
             \<and> g_dependencyTrees g2 (dn_signature prevTree) = Some [c8_x ''^1.2.0'']
         | _ \<Rightarrow> False)
    | _ \<Rightarrow> False)"
  by (simp add: gdt_eval eval_nat_numeral c9_prev_def c9_cur_def no_globals_def c8_x_def built_def
        signature_of_empty_list signature_of_x_120_literal)

text \<open>C9, amended. The tree that \<open>generateDependencyTree\<close> returns, or its failure, is the
  same whatever the global tables hold when the build starts: the stack and the memo table
  \<^verbatim>\<open>processed\<close> start empty in every invocation, and the signature index is written but
  never read. The index itself is shared by all builds: a build keeps every key that the
  index held before, and adds the dependency list of its tree under the signature of the
  tree.\<close>

theorem builder_tables_scope:
  "map_option (map_sum id fst) (generateDependencyTree fuel g root)
     = map_option (map_sum id fst) (generateDependencyTree fuel h root)
   \<and> (\<forall>tree g'. generateDependencyTree fuel g root = Some (Inr (tree, g'))
        \<longrightarrow> dom (g_dependencyTrees g) \<subseteq> dom (g_dependencyTrees g')
          \<and> g_dependencyTrees g' (dn_signature tree) = Some (dn_dependencies tree))"
proof -
  have "g_dependencyTrees g' (dn_signature tree) = Some (dn_dependencies tree)"
    if "generateDependencyTree fuel g root = Some (Inr (tree, g'))" for tree g'
    using that
    by (auto simp: generateDependencyTree_def Let_def split: option.splits sum.splits prod.splits)
  with generateDependencyTree_tree_independent[of fuel g root h]
    generateDependencyTree_builds(4)[of fuel g root]
  show ?thesis by blast
qed

theorem builder_tables_scope_witness:
  "\<exists>tree g1. generateDependencyTree 2 no_globals c9_prev = Some (Inr (tree, g1))
     \<and> map_option (map_sum id fst) (generateDependencyTree 2 no_globals c9_cur)
        = map_option (map_sum id fst) (generateDependencyTree 2 g1 c9_cur)
     \<and> dom (g_dependencyTrees no_globals) \<subseteq> dom (g_dependencyTrees g1)
     \<and> g_dependencyTrees g1 (dn_signature tree) = Some (dn_dependencies tree)"
proof -
  have "\<exists>tree g1. generateDependencyTree 2 no_globals c9_prev = Some (Inr (tree, g1))"
    by (simp add: gdt_eval eval_nat_numeral c9_prev_def)
  then obtain tree g1 where p: "generateDependencyTree 2 no_globals c9_prev = Some (Inr (tree, g1))"
    by blast
  from builder_tables_scope[of 2 no_globals c9_prev no_globals] p
    builder_tables_scope[of 2 no_globals c9_cur g1]
  show ?thesis by blast
qed

section \<open>The pipeline from lock files to lock file\<close>

subsection \<open>A version that contains the separator\<close>









subsection \<open>Entries of the placement tree have a version record\<close>



definition ex_previous :: lock_entry where
  "ex_previous = LockEntry ''1.0.0'' [(''name'', ''app'')] [(''a'', ''^1.0.0'')]
     [(''a'', LockEntry ''1.0.3'' [] [(''c'', ''^2.0.0'')] []),
      (''c'', LockEntry ''2.0.1'' [] [] [])]"

definition ex_current :: lock_entry where
  "ex_current = LockEntry ''1.0.0'' [(''name'', ''app'')] [(''a'', ''^1.0.0''), (''b'', ''^1.0.0'')]
     [(''a'', LockEntry ''1.0.4'' [] [(''c'', ''^2.0.0'')] []),
      (''b'', LockEntry ''1.0.0'' [] [] []),
      (''c'', LockEntry ''2.0.2'' [] [] [])]"





lemma ex_relock:
  "map_option (map_sum id fst) (relock 3 literal_search [] no_globals ex_previous ex_current)
   = Some (Inr \<lparr>lf_name = Some ''app'', lf_version = ''1.0.0'', lf_lockfileVersion = 1,
                 lf_requires = True,
                 lf_dependencies =
                   [(''a'', LockEntry ''1.0.3'' [] [(''c'', ''^2.0.0'')] []),
                    (''b'', LockEntry ''1.0.0'' [] [] []),
                    (''c'', LockEntry ''2.0.1'' [] [] [])]\<rparr>)"
  by (simp add: relock_def gdt_eval eval_nat_numeral ex_previous_def ex_current_def no_globals_def
        relock_eval flatten_eval blf_one.simps buildLockFile_def delete_dependencies_def)




end
